theory Spec2Isabelle
  imports Complex_Main "HOL-Library.Word" "HOL-Library.Sublist"
begin

unbundle bit_operations_syntax

chapter \<open>Definitions: the embedded program\<close>

section \<open>JavaScript strings\<close>

text \<open>
  A JavaScript string is a sequence of 16-bit code units: \<open>charCodeAt\<close> reads one,
  \<open>String.fromCharCode\<close> builds one (reducing its argument modulo \<open>2 ^ 16\<close>), and
  \<open>length\<close>, \<open>includes\<close> and \<open>replace\<close> work on code units. The literals of the
  source are ASCII; \<open>jsstr\<close> embeds them.
\<close>

type_synonym jsstring = "16 word list"

definition jsstr :: "string \<Rightarrow> jsstring" where
  "jsstr s = map (\<lambda>c. of_nat (of_char c)) s"

section \<open>JavaScript values\<close>

text \<open>
  The request bodies and the item objects are \<open>any\<close> in the source. Their fields are
  modelled as JavaScript scalars; a field that is absent reads as \<open>undefined\<close>. Fields
  holding arrays or objects are outside the model. A number is \<open>NaN\<close>, an infinity or a
  finite value, and a finite value is the rational it denotes: comparisons are exact, and
  arithmetic is the exact one (rounding to the nearest double is not modelled).
\<close>

datatype jsnum = NaN | PosInf | NegInf | Fin rat

datatype jsval = JUndefined | JNull | JBool bool | JNum jsnum | JStr jsstring

fun num_lt :: "jsnum \<Rightarrow> jsnum \<Rightarrow> bool" where
  "num_lt NaN _ = False"
| "num_lt _ NaN = False"
| "num_lt (Fin a) (Fin b) = (a < b)"
| "num_lt NegInf NegInf = False"
| "num_lt NegInf _ = True"
| "num_lt PosInf _ = False"
| "num_lt (Fin a) PosInf = True"
| "num_lt (Fin a) NegInf = False"

fun num_le :: "jsnum \<Rightarrow> jsnum \<Rightarrow> bool" where
  "num_le NaN _ = False"
| "num_le _ NaN = False"
| "num_le a b = (\<not> num_lt b a)"

definition num_gt :: "jsnum \<Rightarrow> jsnum \<Rightarrow> bool" where
  "num_gt a b = num_lt b a"

fun num_neg :: "jsnum \<Rightarrow> jsnum" where
  "num_neg NaN = NaN"
| "num_neg PosInf = NegInf"
| "num_neg NegInf = PosInf"
| "num_neg (Fin a) = Fin (- a)"

fun num_add :: "jsnum \<Rightarrow> jsnum \<Rightarrow> jsnum" where
  "num_add NaN _ = NaN"
| "num_add _ NaN = NaN"
| "num_add (Fin a) (Fin b) = Fin (a + b)"
| "num_add PosInf NegInf = NaN"
| "num_add NegInf PosInf = NaN"
| "num_add PosInf _ = PosInf"
| "num_add NegInf _ = NegInf"
| "num_add (Fin a) b = b"

definition num_sub :: "jsnum \<Rightarrow> jsnum \<Rightarrow> jsnum" where
  "num_sub a b = num_add a (num_neg b)"

fun num_sgn :: "jsnum \<Rightarrow> int" where
  "num_sgn NaN = 0"
| "num_sgn PosInf = 1"
| "num_sgn NegInf = - 1"
| "num_sgn (Fin a) = (if a < 0 then - 1 else if a = 0 then 0 else 1)"

fun num_mul :: "jsnum \<Rightarrow> jsnum \<Rightarrow> jsnum" where
  "num_mul NaN _ = NaN"
| "num_mul _ NaN = NaN"
| "num_mul (Fin a) (Fin b) = Fin (a * b)"
| "num_mul a b =
     (if num_sgn a * num_sgn b = 0 then NaN
      else if num_sgn a * num_sgn b > 0 then PosInf else NegInf)"

fun num_abs :: "jsnum \<Rightarrow> jsnum" where
  "num_abs NaN = NaN"
| "num_abs PosInf = PosInf"
| "num_abs NegInf = PosInf"
| "num_abs (Fin a) = Fin \<bar>a\<bar>"

text \<open>Truthiness, as \<open>!x\<close>, \<open>x || y\<close> and \<open>if (x)\<close> read it, and \<open>typeof\<close>.\<close>

fun truthy :: "jsval \<Rightarrow> bool" where
  "truthy JUndefined = False"
| "truthy JNull = False"
| "truthy (JBool b) = b"
| "truthy (JNum NaN) = False"
| "truthy (JNum (Fin r)) = (r \<noteq> 0)"
| "truthy (JNum _) = True"
| "truthy (JStr s) = (s \<noteq> [])"

definition js_or :: "jsval \<Rightarrow> jsval \<Rightarrow> jsval" where
  "js_or a b = (if truthy a then a else b)"

fun typeof_number :: "jsval \<Rightarrow> bool" where
  "typeof_number (JNum _) = True"
| "typeof_number _ = False"

fun typeof_string :: "jsval \<Rightarrow> bool" where
  "typeof_string (JStr _) = True"
| "typeof_string _ = False"

text \<open>
  \<open>String.prototype.includes\<close>, and \<open>String.prototype.replace\<close> with a string pattern,
  which replaces the first occurrence only (the replacement strings of the source hold no
  \<open>$\<close>, so no replacement pattern is expanded).
\<close>

fun includes_str :: "jsstring \<Rightarrow> jsstring \<Rightarrow> bool" where
  "includes_str [] pat = (pat = [])"
| "includes_str (c # cs) pat = (prefix pat (c # cs) \<or> includes_str cs pat)"

fun replace_first :: "jsstring \<Rightarrow> jsstring \<Rightarrow> jsstring \<Rightarrow> jsstring" where
  "replace_first [] pat rep = (if pat = [] then rep else [])"
| "replace_first (c # cs) pat rep =
     (if prefix pat (c # cs) then rep @ drop (length pat) (c # cs)
      else c # replace_first cs pat rep)"

text \<open>\<open>replace(/c/g, rep)\<close> for a single character \<open>c\<close>: every occurrence is replaced.\<close>

definition replace_all_char :: "16 word \<Rightarrow> jsstring \<Rightarrow> jsstring \<Rightarrow> jsstring" where
  "replace_all_char c rep s = concat (map (\<lambda>x. if x = c then rep else [x]) s)"

section \<open>SecurityManager.checkOrderCreationRateLimit (src/lib/security.ts)\<close>

text \<open>
  The static map \<open>orderCreationAttempts\<close> is threaded through explicitly; \<open>Date.now()\<close>
  is the argument \<open>now\<close> (milliseconds, an integer). The parameter \<open>clientId\<close> has the
  default \<open>'anonymous'\<close>, taken when the argument is absent (\<open>None\<close>). A refused call
  returns before \<open>set\<close>, so it leaves the map as it was.
\<close>

definition windowMs :: int where "windowMs = 60000"
definition maxAttempts :: nat where "maxAttempts = 5"

type_synonym attempts_map = "jsstring \<rightharpoonup> int list"

definition checkOrderCreationRateLimit ::
  "int \<Rightarrow> jsstring option \<Rightarrow> attempts_map \<Rightarrow> bool \<times> attempts_map" where
  "checkOrderCreationRateLimit now clientIdArg orderCreationAttempts =
     (let clientId = (case clientIdArg of None \<Rightarrow> jsstr ''anonymous'' | Some c \<Rightarrow> c);
          attempts = (case orderCreationAttempts clientId of None \<Rightarrow> [] | Some a \<Rightarrow> a);
          recentAttempts = filter (\<lambda>time. now - time < windowMs) attempts
      in if length recentAttempts \<ge> maxAttempts
         then (False, orderCreationAttempts)
         else (True, orderCreationAttempts(clientId \<mapsto> recentAttempts @ [now])))"

text \<open>
  A sequence of calls, each with its clock reading and its argument (the client token, or
  \<open>None\<close> when the call passes none), run from a given map: the outcomes in order, and
  the final map. \<open>clientId_of\<close> is the token a call counts against: the argument, or
  the default \<open>'anonymous'\<close>.
\<close>

definition clientId_of :: "jsstring option \<Rightarrow> jsstring" where
  "clientId_of clientIdArg = (case clientIdArg of None \<Rightarrow> jsstr ''anonymous'' | Some c \<Rightarrow> c)"

fun run_calls ::
  "attempts_map \<Rightarrow> (int \<times> jsstring option) list \<Rightarrow> bool list \<times> attempts_map" where
  "run_calls m [] = ([], m)"
| "run_calls m ((now, clientIdArg) # cs) =
     (case checkOrderCreationRateLimit now clientIdArg m of
        (ok, m') \<Rightarrow> (case run_calls m' cs of (oks, m'') \<Rightarrow> (ok # oks, m'')))"

text \<open>
  The clock readings of the calls that counted against token \<open>c\<close> and returned \<open>true\<close>,
  in call order; \<open>stored\<close> reads a token's array, \<open>[]\<close> when the map has none.
\<close>

definition allowed_times ::
  "jsstring \<Rightarrow> (int \<times> jsstring option) list \<Rightarrow> bool list \<Rightarrow> int list" where
  "allowed_times c calls outs =
     map (\<lambda>((t, arg), ok). t)
       (filter (\<lambda>((t, arg), ok). clientId_of arg = c \<and> ok) (zip calls outs))"

definition stored :: "attempts_map \<Rightarrow> jsstring \<Rightarrow> int list" where
  "stored m c = (case m c of None \<Rightarrow> [] | Some a \<Rightarrow> a)"

text \<open>
  Two runs. In the first a client passes the token \<open>t\<close>: five calls within four
  milliseconds, a sixth one millisecond later, and a seventh once the first five are 60
  seconds old. In the second no call passes a token, except the fourth, which passes the
  default token itself.
\<close>

definition burst_calls :: "(int \<times> jsstring option) list" where
  "burst_calls =
     [(0, Some (jsstr ''t'')), (1, Some (jsstr ''t'')), (2, Some (jsstr ''t'')),
      (3, Some (jsstr ''t'')), (4, Some (jsstr ''t'')), (5, Some (jsstr ''t'')),
      (60004, Some (jsstr ''t''))]"

definition anonymous_calls :: "(int \<times> jsstring option) list" where
  "anonymous_calls =
     [(0, None), (1, None), (2, None), (3, Some (jsstr ''anonymous'')), (4, None), (5, None)]"

section \<open>TrackingSystem (src/lib/trackingSystem.ts)\<close>

text \<open>
  The singleton's fields are a record, threaded through every method. A callback is a
  function object, compared by identity in \<open>indexOf\<close>: it is modelled by a natural
  number naming it. A callback that runs is recorded, with its argument, in the list of
  invocations a method returns; callbacks are opaque and do not call back into the
  tracking system while they run. \<open>new Date().toISOString()\<close> is an argument.
  \<open>saveToStorage\<close> writes \<open>localStorage\<close> only and reads no field back, so it is left
  out.
\<close>

datatype OrderStatus = Waiting | Preparing | Ready | Completed

record TrackingData =
  orderNumber :: int
  verificationNumber :: int
  status :: OrderStatus
  timestamp :: string
  lastUpdated :: string

type_synonym callback = nat

record TrackingSystem =
  statusUpdates :: "int \<rightharpoonup> TrackingData"
  subscribers :: "int \<rightharpoonup> callback list"
  currentOrderBeingPrepared :: "int option"
  currentOrderSubscribers :: "callback list"

definition newTrackingSystem :: TrackingSystem where
  "newTrackingSystem =
     \<lparr>statusUpdates = Map.empty, subscribers = Map.empty,
      currentOrderBeingPrepared = None, currentOrderSubscribers = []\<rparr>"

definition initializeOrder :: "string \<Rightarrow> string \<Rightarrow> int \<Rightarrow> int \<Rightarrow> TrackingSystem \<Rightarrow> TrackingSystem" where
  "initializeOrder now1 now2 n v ts =
     ts\<lparr>statusUpdates := (statusUpdates ts)(n \<mapsto>
          \<lparr>orderNumber = n, verificationNumber = v, status = Waiting,
           timestamp = now1, lastUpdated = now2\<rparr>)\<rparr>"

definition updateOrderStatus ::
  "string \<Rightarrow> int \<Rightarrow> OrderStatus \<Rightarrow> TrackingSystem \<Rightarrow> TrackingSystem \<times> (callback \<times> OrderStatus) list" where
  "updateOrderStatus now n newStatus ts =
     (case statusUpdates ts n of
        None \<Rightarrow> (ts, [])
      | Some existing \<Rightarrow>
          (let updated = existing\<lparr>status := newStatus, lastUpdated := now\<rparr>;
               ts' = ts\<lparr>statusUpdates := (statusUpdates ts)(n \<mapsto> updated)\<rparr>;
               orderSubscribers = (case subscribers ts' n of None \<Rightarrow> [] | Some l \<Rightarrow> l)
           in (ts', map (\<lambda>callback. (callback, newStatus)) orderSubscribers)))"

definition getOrderTracking :: "int \<Rightarrow> TrackingSystem \<Rightarrow> TrackingData option" where
  "getOrderTracking n ts = statusUpdates ts n"

text \<open>
  The function \<open>subscribeToOrder\<close> returns: it looks the order's array up again when it
  is called and removes the first occurrence of the callback (\<open>indexOf\<close>, \<open>splice\<close>).
\<close>

definition unsubscribeFromOrder :: "int \<Rightarrow> callback \<Rightarrow> TrackingSystem \<Rightarrow> TrackingSystem" where
  "unsubscribeFromOrder n callback ts =
     (case subscribers ts n of
        None \<Rightarrow> ts
      | Some orderSubscribers \<Rightarrow>
          if callback \<in> set orderSubscribers
          then ts\<lparr>subscribers := (subscribers ts)(n \<mapsto> remove1 callback orderSubscribers)\<rparr>
          else ts)"

definition subscribeToOrder ::
  "int \<Rightarrow> callback \<Rightarrow> TrackingSystem \<Rightarrow> TrackingSystem \<times> (TrackingSystem \<Rightarrow> TrackingSystem)" where
  "subscribeToOrder n callback ts =
     (let subs = (case subscribers ts n of None \<Rightarrow> (subscribers ts)(n \<mapsto> []) | Some l \<Rightarrow> subscribers ts);
          l = (case subs n of None \<Rightarrow> [] | Some l \<Rightarrow> l)
      in (ts\<lparr>subscribers := subs(n \<mapsto> l @ [callback])\<rparr>, unsubscribeFromOrder n callback))"

definition simulateStatusUpdate ::
  "string \<Rightarrow> int \<Rightarrow> TrackingSystem \<Rightarrow> TrackingSystem \<times> (callback \<times> OrderStatus) list" where
  "simulateStatusUpdate now n ts =
     (case getOrderTracking n ts of
        None \<Rightarrow> (ts, [])
      | Some current \<Rightarrow>
          (let nextStatus =
                 (if status current = Waiting then Preparing
                  else if status current = Preparing then Ready else Ready)
           in updateOrderStatus now n nextStatus ts))"

definition setCurrentOrderBeingPrepared ::
  "int option \<Rightarrow> TrackingSystem \<Rightarrow> TrackingSystem \<times> (callback \<times> int option) list" where
  "setCurrentOrderBeingPrepared n ts =
     (ts\<lparr>currentOrderBeingPrepared := n\<rparr>,
      map (\<lambda>callback. (callback, n)) (currentOrderSubscribers ts))"

definition unsubscribeFromCurrentOrder :: "callback \<Rightarrow> TrackingSystem \<Rightarrow> TrackingSystem" where
  "unsubscribeFromCurrentOrder callback ts =
     (if callback \<in> set (currentOrderSubscribers ts)
      then ts\<lparr>currentOrderSubscribers := remove1 callback (currentOrderSubscribers ts)\<rparr>
      else ts)"

definition subscribeToCurrentOrder ::
  "callback \<Rightarrow> TrackingSystem \<Rightarrow> TrackingSystem \<times> (TrackingSystem \<Rightarrow> TrackingSystem)" where
  "subscribeToCurrentOrder callback ts =
     (ts\<lparr>currentOrderSubscribers := currentOrderSubscribers ts @ [callback]\<rparr>,
      unsubscribeFromCurrentOrder callback)"

definition resetSystem :: "TrackingSystem \<Rightarrow> TrackingSystem" where
  "resetSystem ts =
     ts\<lparr>statusUpdates := Map.empty, subscribers := Map.empty,
        currentOrderBeingPrepared := None, currentOrderSubscribers := []\<rparr>"

text \<open>
  What a client can do to the tracking system, one public method per constructor (the two
  \<open>Unsubscribe\<close> constructors call a function that an earlier subscription returned), and
  a run of such calls: the final state and the order-status callbacks invoked, in order.
\<close>

datatype tracking_call =
    InitializeOrder string string int int
  | UpdateOrderStatus string int OrderStatus
  | SubscribeToOrder int callback
  | UnsubscribeFromOrder int callback
  | SimulateStatusUpdate string int
  | SetCurrentOrderBeingPrepared "int option"
  | SubscribeToCurrentOrder callback
  | UnsubscribeFromCurrentOrder callback
  | ResetSystem

fun tracking_step ::
  "tracking_call \<Rightarrow> TrackingSystem \<Rightarrow> TrackingSystem \<times> (callback \<times> OrderStatus) list" where
  "tracking_step (InitializeOrder now1 now2 n v) ts = (initializeOrder now1 now2 n v ts, [])"
| "tracking_step (UpdateOrderStatus now n s) ts = updateOrderStatus now n s ts"
| "tracking_step (SubscribeToOrder n cb) ts = (fst (subscribeToOrder n cb ts), [])"
| "tracking_step (UnsubscribeFromOrder n cb) ts = (unsubscribeFromOrder n cb ts, [])"
| "tracking_step (SimulateStatusUpdate now n) ts = simulateStatusUpdate now n ts"
| "tracking_step (SetCurrentOrderBeingPrepared n) ts = (fst (setCurrentOrderBeingPrepared n ts), [])"
| "tracking_step (SubscribeToCurrentOrder cb) ts = (fst (subscribeToCurrentOrder cb ts), [])"
| "tracking_step (UnsubscribeFromCurrentOrder cb) ts = (unsubscribeFromCurrentOrder cb ts, [])"
| "tracking_step ResetSystem ts = (resetSystem ts, [])"

fun tracking_run ::
  "tracking_call list \<Rightarrow> TrackingSystem \<Rightarrow> TrackingSystem \<times> (callback \<times> OrderStatus) list" where
  "tracking_run [] ts = (ts, [])"
| "tracking_run (c # cs) ts =
     (case tracking_step c ts of
        (ts', invoked) \<Rightarrow> (case tracking_run cs ts' of (ts'', invoked') \<Rightarrow> (ts'', invoked @ invoked')))"

text \<open>The array of callbacks an order has, \<open>[]\<close> when the map has none.\<close>

definition subscribers_of :: "TrackingSystem \<Rightarrow> int \<Rightarrow> callback list" where
  "subscribers_of ts n = (case subscribers ts n of None \<Rightarrow> [] | Some l \<Rightarrow> l)"

text \<open>
  Where a callback stands in the arrays: in none of them; or in no array but that of order
  \<open>n\<close>, and there at most once. \<open>resubscribes\<close> tells the calls that register it.
\<close>

definition absent :: "callback \<Rightarrow> TrackingSystem \<Rightarrow> bool" where
  "absent cb ts = (\<forall>k. cb \<notin> set (subscribers_of ts k))"

definition at_most_once :: "int \<Rightarrow> callback \<Rightarrow> TrackingSystem \<Rightarrow> bool" where
  "at_most_once n cb ts =
     ((\<forall>k. k \<noteq> n \<longrightarrow> cb \<notin> set (subscribers_of ts k)) \<and> count_list (subscribers_of ts n) cb \<le> 1)"

definition resubscribes :: "callback \<Rightarrow> tracking_call \<Rightarrow> bool" where
  "resubscribes cb c = (case c of SubscribeToOrder n' cb' \<Rightarrow> cb' = cb | _ \<Rightarrow> False)"

text \<open>
  A run for one callback: order 7 is created, callback 1 subscribes to it, a status update
  reaches it, it unsubscribes, and further updates follow.
\<close>

definition calls_before :: "tracking_call list" where
  "calls_before = [UpdateOrderStatus ''t1'' 7 Preparing, SubscribeToOrder 7 2]"

definition calls_after :: "tracking_call list" where
  "calls_after = [UpdateOrderStatus ''t2'' 7 Ready, SimulateStatusUpdate ''t3'' 7,
                  UpdateOrderStatus ''t4'' 7 Completed]"

definition tracked_order7 :: TrackingSystem where
  "tracked_order7 = initializeOrder ''t0'' ''t0'' 7 1234 newTrackingSystem"

section \<open>SecurityManager.sanitizeText and validateOrderItems (src/lib/security.ts)\<close>

definition sanitizeText :: "jsval \<Rightarrow> jsstring" where
  "sanitizeText input =
     (case input of
        JStr s \<Rightarrow>
          replace_all_char 0x2F (jsstr ''&#x2F;'')
            (replace_all_char 0x27 (jsstr ''&#x27;'')
              (replace_all_char 0x22 (jsstr ''&quot;'')
                (replace_all_char 0x3E (jsstr ''&gt;'')
                  (replace_all_char 0x3C (jsstr ''&lt;'')
                    (replace_all_char 0x26 (jsstr ''&amp;'') s)))))
      | _ \<Rightarrow> [])"

text \<open>
  An order item as the client sends it and as the two consumers read it:
  \<open>validateOrderItems\<close> reads \<open>id\<close> (the field \<open>item_id\<close> here), \<open>name\<close>, \<open>quantity\<close>, \<open>price\<close> and \<open>emoji\<close>; the
  order-creation endpoint reads the others too.
\<close>

record item =
  item_id :: jsval
  name :: jsval
  quantity :: jsval
  price :: jsval
  emoji :: jsval
  base_name :: jsval
  variant :: jsval
  protein :: jsval
  menu_item_id :: jsval

text \<open>
  The loop of \<open>validateOrderItems\<close>: the first failing check returns \<open>false\<close>; an item that
  passes has its \<open>name\<close> (and its \<open>emoji\<close>, when truthy) overwritten with the sanitised
  text before the next item is looked at. The items are returned as the loop leaves them.
  In the comparisons the field is known to be a number (\<open>typeof\<close> was checked first).
\<close>

fun num_of :: "jsval \<Rightarrow> jsnum" where
  "num_of (JNum n) = n"
| "num_of _ = NaN"

fun str_length :: "jsval \<Rightarrow> nat" where
  "str_length (JStr s) = length s"
| "str_length _ = 0"

fun validate_items_loop :: "item list \<Rightarrow> bool \<times> item list" where
  "validate_items_loop [] = (True, [])"
| "validate_items_loop (item # rest) =
     (if \<not> truthy (item_id item) \<or> \<not> truthy (name item) \<or> \<not> truthy (quantity item)
         \<or> \<not> truthy (price item)
      then (False, item # rest)
      else if \<not> typeof_number (item_id item) \<or> num_lt (num_of (item_id item)) (Fin 1)
         \<or> num_gt (num_of (item_id item)) (Fin 1000)
      then (False, item # rest)
      else if \<not> typeof_string (name item) \<or> str_length (name item) > 100
      then (False, item # rest)
      else if \<not> typeof_number (quantity item) \<or> num_lt (num_of (quantity item)) (Fin 1)
         \<or> num_gt (num_of (quantity item)) (Fin 99)
      then (False, item # rest)
      else if \<not> typeof_number (price item) \<or> num_le (num_of (price item)) (Fin 0)
         \<or> num_gt (num_of (price item)) (Fin 1000)
      then (False, item # rest)
      else
        (let item1 = item\<lparr>name := JStr (sanitizeText (name item))\<rparr>;
             item2 = (if truthy (emoji item1)
                      then item1\<lparr>emoji := JStr (sanitizeText (emoji item1))\<rparr> else item1)
         in case validate_items_loop rest of (ok, rest') \<Rightarrow> (ok, item2 # rest')))"

text \<open>
  The argument is \<open>None\<close> when it is not an array (\<open>Array.isArray\<close> fails), else the
  array's elements, each of them an object.
\<close>

definition validateOrderItems :: "item list option \<Rightarrow> bool \<times> item list option" where
  "validateOrderItems items =
     (case items of
        None \<Rightarrow> (False, None)
      | Some xs \<Rightarrow>
          if length xs = 0 \<or> length xs > 20 then (False, Some xs)
          else (case validate_items_loop xs of (ok, xs') \<Rightarrow> (ok, Some xs')))"

text \<open>What the claim requires of one item.\<close>

definition item_in_range :: "item \<Rightarrow> bool" where
  "item_in_range x =
     ((\<exists>r. item_id x = JNum (Fin r) \<and> 1 \<le> r \<and> r \<le> 1000)
      \<and> (\<exists>s. name x = JStr s \<and> length s \<le> 100)
      \<and> (\<exists>q. quantity x = JNum (Fin q) \<and> 1 \<le> q \<and> q \<le> 99)
      \<and> (\<exists>p. price x = JNum (Fin p) \<and> 0 < p \<and> p \<le> 1000))"

definition montana_item :: item where
  "montana_item =
     \<lparr>item_id = JNum (Fin 1), name = JStr (jsstr ''Montana BBQ Hamburger Regular''),
      quantity = JNum (Fin 2), price = JNum (Fin 280), emoji = JUndefined,
      base_name = JUndefined, variant = JStr (jsstr ''Beef''), protein = JUndefined,
      menu_item_id = JUndefined\<rparr>"

section \<open>SecurityManager.encryptData, decryptData and simpleHash (src/lib/security.ts)\<close>

text \<open>
  \<open>Number.prototype.toString(radix)\<close> for a non-negative integer: its digits in that
  radix, most significant first, with \<open>a\<close> to \<open>z\<close> for the digits from ten on.
\<close>

definition digit_char :: "nat \<Rightarrow> 16 word" where
  "digit_char d = (if d < 10 then of_nat (48 + d) else of_nat (87 + d))"

function number_to_string :: "nat \<Rightarrow> nat \<Rightarrow> jsstring" where
  "number_to_string radix n =
     (if n < radix \<or> radix < 2 then [digit_char n]
      else number_to_string radix (n div radix) @ [digit_char (n mod radix)])"
  by pat_completeness auto
termination
  by (relation "measure snd") auto

declare number_to_string.simps [simp del]

text \<open>
  \<open>simpleHash\<close>. After \<open>hash & hash\<close> the accumulator is a 32-bit integer, so
  \<open>hash << 5\<close> is the shift of that integer, the subtraction and the addition of the code
  unit are exact, and the next \<open>hash & hash\<close> reduces their result modulo \<open>2 ^ 32\<close>: one
  step is the 32-bit word \<open>(hash << 5) - hash + char\<close>. \<open>Math.abs\<close> reads the word as
  signed.
\<close>

definition hash_step :: "32 word \<Rightarrow> 16 word \<Rightarrow> 32 word" where
  "hash_step hash char = (let h = (push_bit 5 hash - hash) + of_nat (unat char) in h AND h)"

definition simpleHash :: "jsstring \<Rightarrow> jsstring" where
  "simpleHash str =
     (let hash = foldl hash_step 0 str
      in number_to_string 36 (nat \<bar>sint hash\<bar>) @ number_to_string 36 (length str))"

text \<open>
  \<open>btoa\<close> and \<open>atob\<close> of the browser. \<open>btoa\<close> throws (\<open>None\<close>) when a code unit is above
  255; else it writes three bytes as four characters of the base64 alphabet and pads the
  last group with \<open>=\<close>. \<open>atob\<close> removes ASCII whitespace, removes one or two trailing \<open>=\<close>
  when the length is a multiple of four, throws when the remaining length is 1 modulo 4 or
  a character is outside the alphabet, and else reads six bits from each character,
  dropping the bits of an incomplete last byte.
\<close>

definition b64_char :: "nat \<Rightarrow> 16 word" where
  "b64_char i =
     (if i < 26 then of_nat (65 + i)
      else if i < 52 then of_nat (97 + (i - 26))
      else if i < 62 then of_nat (48 + (i - 52))
      else if i = 62 then 43 else 47)"

definition b64_index :: "16 word \<Rightarrow> nat option" where
  "b64_index c =
     (let n = unat c
      in if 65 \<le> n \<and> n \<le> 90 then Some (n - 65)
         else if 97 \<le> n \<and> n \<le> 122 then Some (n - 97 + 26)
         else if 48 \<le> n \<and> n \<le> 57 then Some (n - 48 + 52)
         else if n = 43 then Some 62
         else if n = 47 then Some 63
         else None)"

fun enc_sextets :: "nat list \<Rightarrow> nat list" where
  "enc_sextets (a # b # c # rest) =
     [a div 4, (a mod 4) * 16 + b div 16, (b mod 16) * 4 + c div 64, c mod 64] @ enc_sextets rest"
| "enc_sextets [a, b] = [a div 4, (a mod 4) * 16 + b div 16, (b mod 16) * 4]"
| "enc_sextets [a] = [a div 4, (a mod 4) * 16]"
| "enc_sextets [] = []"

definition btoa :: "jsstring \<Rightarrow> jsstring option" where
  "btoa s =
     (if \<exists>c \<in> set s. unat c > 255 then None
      else Some (map b64_char (enc_sextets (map unat s))
                 @ replicate ((3 - length s mod 3) mod 3) 61))"

fun dec_sextets :: "nat list \<Rightarrow> nat list" where
  "dec_sextets (p # q # r # s # rest) =
     [p * 4 + q div 16, (q mod 16) * 16 + r div 4, (r mod 4) * 64 + s] @ dec_sextets rest"
| "dec_sextets [p, q, r] = [p * 4 + q div 16, (q mod 16) * 16 + r div 4]"
| "dec_sextets [p, q] = [p * 4 + q div 16]"
| "dec_sextets _ = []"

definition strip_padding :: "jsstring \<Rightarrow> jsstring" where
  "strip_padding d =
     (if length d mod 4 = 0
      then (if suffix [61, 61] d then take (length d - 2) d
            else if suffix [61] d then take (length d - 1) d
            else d)
      else d)"

definition atob :: "jsstring \<Rightarrow> jsstring option" where
  "atob s =
     (let d = strip_padding (filter (\<lambda>c. c \<notin> {9, 10, 12, 13, 32}) s)
      in if length d mod 4 = 1 then None
         else if \<exists>c \<in> set d. b64_index c = None then None
         else Some (map of_nat (dec_sextets (map (\<lambda>c. the (b64_index c)) d))))"

text \<open>
  One round of the two loops. \<open>charCodeAt\<close> outside the string is \<open>NaN\<close> (\<open>None\<close>), and
  so is \<open>i % 0\<close>; arithmetic on \<open>NaN\<close> stays \<open>NaN\<close>, which \<open>String.fromCharCode\<close> turns
  into the code unit 0. The remainder \<open>%\<close> of JavaScript takes the sign of the dividend.
\<close>

definition charCodeAt :: "jsstring \<Rightarrow> nat \<Rightarrow> nat option" where
  "charCodeAt s i = (if i < length s then Some (unat (s ! i)) else None)"

definition js_rem :: "int \<Rightarrow> int \<Rightarrow> int" where
  "js_rem a b = sgn a * (\<bar>a\<bar> mod \<bar>b\<bar>)"

definition encrypt_round :: "jsstring \<Rightarrow> jsstring \<Rightarrow> jsstring" where
  "encrypt_round roundKey encrypted =
     map (\<lambda>(i, dataChar).
            case charCodeAt roundKey (i mod length roundKey) of
              None \<Rightarrow> 0
            | Some keyChar \<Rightarrow> of_nat ((unat dataChar + keyChar) mod 256))
         (enumerate 0 encrypted)"

definition decrypt_round :: "jsstring \<Rightarrow> jsstring \<Rightarrow> jsstring" where
  "decrypt_round roundKey decrypted =
     map (\<lambda>(i, dataChar).
            case charCodeAt roundKey (i mod length roundKey) of
              None \<Rightarrow> 0
            | Some keyChar \<Rightarrow>
                (let originalChar = js_rem (int (unat dataChar) - int keyChar) 256;
                     originalChar = (if originalChar < 0 then originalChar + 256 else originalChar)
                 in of_nat (nat originalChar)))
         (enumerate 0 decrypted)"

definition roundKey_of :: "jsstring \<Rightarrow> nat \<Rightarrow> jsstring" where
  "roundKey_of keyHash rnd = simpleHash (keyHash @ number_to_string 10 rnd)"

text \<open>
  \<open>crypto\<close> tells whether \<open>window.crypto.subtle\<close> is there. The result \<open>None\<close> of
  \<open>encryptData\<close> is an exception that leaves the function: the \<open>catch\<close> block calls
  \<open>btoa(data)\<close> again. \<open>decryptData\<close> returns \<open>''\<close> from its \<open>catch\<close> block.
\<close>

definition encryptData :: "bool \<Rightarrow> jsstring \<Rightarrow> jsstring \<Rightarrow> jsstring option" where
  "encryptData crypto data key =
     (let attempt =
            (if crypto
             then (let keyHash = simpleHash key;
                       encrypted = foldl (\<lambda>encrypted rnd. encrypt_round (roundKey_of keyHash rnd) encrypted)
                                     data [0, 1, 2]
                   in btoa encrypted)
             else btoa data)
      in case attempt of Some r \<Rightarrow> Some r | None \<Rightarrow> btoa data)"

definition decryptData :: "bool \<Rightarrow> jsstring \<Rightarrow> jsstring \<Rightarrow> jsstring" where
  "decryptData crypto encryptedData key =
     (case atob encryptedData of
        None \<Rightarrow> []
      | Some decrypted \<Rightarrow>
          if crypto
          then (let keyHash = simpleHash key
                in foldl (\<lambda>decrypted rnd. decrypt_round (roundKey_of keyHash rnd) decrypted)
                     decrypted [2, 1, 0])
          else decrypted)"

text \<open>A short text and a key, both ASCII.\<close>

definition sample_data :: jsstring where
  "sample_data = jsstr ''order 7''"

definition sample_key :: jsstring where
  "sample_key = jsstr ''k1''"

section \<open>Numbers from strings: parseInt, parseFloat and ToNumber\<close>

text \<open>
  The white space that \<open>parseInt\<close>, \<open>parseFloat\<close> and the conversion of a string to a
  number skip: the ECMAScript \<open>WhiteSpace\<close> and \<open>LineTerminator\<close> code units.
\<close>

definition is_ws :: "16 word \<Rightarrow> bool" where
  "is_ws c =
     (c \<in> {0x9, 0xA, 0xB, 0xC, 0xD, 0x20, 0xA0, 0x1680, 0x2028, 0x2029, 0x202F, 0x205F,
            0x3000, 0xFEFF}
      \<or> (0x2000 \<le> c \<and> c \<le> 0x200A))"

definition digit_val :: "16 word \<Rightarrow> nat option" where
  "digit_val c =
     (let n = unat c
      in if 48 \<le> n \<and> n \<le> 57 then Some (n - 48)
         else if 97 \<le> n \<and> n \<le> 122 then Some (n - 87)
         else if 65 \<le> n \<and> n \<le> 90 then Some (n - 55)
         else None)"

definition is_digit :: "nat \<Rightarrow> 16 word \<Rightarrow> bool" where
  "is_digit radix c = (case digit_val c of None \<Rightarrow> False | Some d \<Rightarrow> d < radix)"

definition digits_value :: "nat \<Rightarrow> jsstring \<Rightarrow> nat" where
  "digits_value radix ds = foldl (\<lambda>acc c. acc * radix + the (digit_val c)) 0 ds"

text \<open>An optional sign in front: whether it is \<open>-\<close>, and the rest.\<close>

fun take_sign :: "jsstring \<Rightarrow> bool \<times> jsstring" where
  "take_sign [] = (False, [])"
| "take_sign (c # cs) =
     (if c = 0x2D then (True, cs) else if c = 0x2B then (False, cs) else (False, c # cs))"

text \<open>
  \<open>parseInt(string)\<close> with no radix: leading white space, a sign, the prefix \<open>0x\<close> or
  \<open>0X\<close> (radix 16, else 10), then the longest run of digits of the radix; \<open>NaN\<close> when
  that run is empty. The value is the integer the digits denote.
\<close>

definition parseInt_string :: "jsstring \<Rightarrow> jsnum" where
  "parseInt_string s =
     (case take_sign (dropWhile is_ws s) of
        (negative, s2) \<Rightarrow>
          (let hex = (prefix (jsstr ''0x'') s2 \<or> prefix (jsstr ''0X'') s2);
               radix = (if hex then 16 else 10);
               s3 = (if hex then drop 2 s2 else s2);
               z = takeWhile (is_digit radix) s3
           in if z = [] then NaN
              else Fin (of_int ((if negative then - 1 else 1) * int (digits_value radix z)))))"

text \<open>
  The longest prefix that is a \<open>StrDecimalLiteral\<close>, and what follows it: a sign, then
  \<open>Infinity\<close>, or digits with an optional fraction and an optional exponent (an \<open>e\<close> with
  no digits after it is not part of the literal). \<open>NaN\<close> when there is no such prefix.
\<close>

definition scale10 :: "rat \<Rightarrow> int \<Rightarrow> rat" where
  "scale10 x e = (if e \<ge> 0 then x * 10 ^ nat e else x / 10 ^ nat (- e))"

definition parse_exponent :: "jsstring \<Rightarrow> int \<times> jsstring" where
  "parse_exponent s =
     (case s of
        [] \<Rightarrow> (0, s)
      | c # r \<Rightarrow>
          if c = 0x65 \<or> c = 0x45
          then (case take_sign r of
                  (negative, r2) \<Rightarrow>
                    (let ed = takeWhile (is_digit 10) r2
                     in if ed = [] then (0, s)
                        else ((if negative then - 1 else 1) * int (digits_value 10 ed),
                              dropWhile (is_digit 10) r2)))
          else (0, s))"

definition parse_decimal :: "jsstring \<Rightarrow> jsnum \<times> jsstring" where
  "parse_decimal s =
     (case take_sign s of
        (negative, s2) \<Rightarrow>
          if prefix (jsstr ''Infinity'') s2
          then (if negative then NegInf else PosInf, drop 8 s2)
          else
            (let ip = takeWhile (is_digit 10) s2;
                 s3 = dropWhile (is_digit 10) s2;
                 fp = (case s3 of [] \<Rightarrow> [] | c # r \<Rightarrow> if c = 0x2E then takeWhile (is_digit 10) r else []);
                 s4 = (case s3 of [] \<Rightarrow> [] | c # r \<Rightarrow> if c = 0x2E then dropWhile (is_digit 10) r else s3)
             in if ip = [] \<and> fp = [] then (NaN, s)
                else (case parse_exponent s4 of
                        (e, rest) \<Rightarrow>
                          (let m = of_nat (digits_value 10 ip)
                                   + of_nat (digits_value 10 fp) / 10 ^ length fp;
                               v = scale10 m e
                           in (Fin (if negative then - v else v), rest)))))"

definition parseFloat_string :: "jsstring \<Rightarrow> jsnum" where
  "parseFloat_string s = fst (parse_decimal (dropWhile is_ws s))"

text \<open>
  The conversion of a string to a number that the arithmetic operators apply: white space
  is trimmed at both ends, the empty string is 0, and the rest must be, as a whole, a
  hexadecimal, octal or binary integer literal or a \<open>StrDecimalLiteral\<close>.
\<close>

definition radix_literal :: "nat \<Rightarrow> jsstring \<Rightarrow> jsnum" where
  "radix_literal radix ds =
     (if ds \<noteq> [] \<and> list_all (is_digit radix) ds then Fin (of_nat (digits_value radix ds)) else NaN)"

definition string_to_number :: "jsstring \<Rightarrow> jsnum" where
  "string_to_number s =
     (let t = rev (dropWhile is_ws (rev (dropWhile is_ws s)))
      in if t = [] then Fin 0
         else if prefix (jsstr ''0x'') t \<or> prefix (jsstr ''0X'') t then radix_literal 16 (drop 2 t)
         else if prefix (jsstr ''0o'') t \<or> prefix (jsstr ''0O'') t then radix_literal 8 (drop 2 t)
         else if prefix (jsstr ''0b'') t \<or> prefix (jsstr ''0B'') t then radix_literal 2 (drop 2 t)
         else (case parse_decimal t of (v, rest) \<Rightarrow> if rest = [] then v else NaN))"

fun to_number :: "jsval \<Rightarrow> jsnum" where
  "to_number JUndefined = NaN"
| "to_number JNull = Fin 0"
| "to_number (JBool b) = Fin (if b then 1 else 0)"
| "to_number (JNum n) = n"
| "to_number (JStr s) = string_to_number s"

text \<open>
  \<open>parseFloat\<close> and \<open>parseInt\<close> convert their argument to a string first. A number
  printed and parsed again by \<open>parseFloat\<close> is the number itself. \<open>parseInt\<close> stops at the
  decimal point, so a finite number printed in plain notation (0, or a magnitude from
  \<open>10\<^sup>-\<^sup>6\<close> up to but excluding \<open>10\<^sup>2\<^sup>1\<close>) is truncated towards zero; for the other magnitudes
  the engine prints exponent notation, whose text is the parameter \<open>exp_notation\<close>.
  \<open>undefined\<close>, \<open>null\<close>, booleans, \<open>NaN\<close> and the infinities print as words without
  digits.
\<close>

definition truncate_rat :: "rat \<Rightarrow> int" where
  "truncate_rat r = (if r < 0 then - \<lfloor>- r\<rfloor> else \<lfloor>r\<rfloor>)"

fun js_parseFloat :: "jsval \<Rightarrow> jsnum" where
  "js_parseFloat (JNum n) = n"
| "js_parseFloat (JStr s) = parseFloat_string s"
| "js_parseFloat _ = NaN"

fun js_parseInt :: "(rat \<Rightarrow> jsstring) \<Rightarrow> jsval \<Rightarrow> jsnum" where
  "js_parseInt exp_notation (JNum (Fin r)) =
     (if r = 0 \<or> (1 / 10 ^ 6 \<le> \<bar>r\<bar> \<and> \<bar>r\<bar> < 10 ^ 21) then Fin (of_int (truncate_rat r))
      else parseInt_string (exp_notation r))"
| "js_parseInt exp_notation (JStr s) = parseInt_string s"
| "js_parseInt exp_notation _ = NaN"

section \<open>The orders store\<close>

text \<open>
  The managed database is an external collaborator. Its two tables are lists of rows, and
  each call to it is the query the source builds: a filter, an insert of the given
  columns, or an update of the matching rows. What the source does not decide is supplied
  by the caller of the model: whether a call fails (with the message of the error
  object), and the columns the database generates for a new row. Instants of time are
  numbers (milliseconds).
\<close>

type_synonym instant = nat

record order_row =
  row_id :: jsval
  order_number :: int
  verification_number :: int
  total_amount :: jsnum
  status :: jsstring
  created_at :: instant
  updated_at :: "instant option"
  completed_at :: "instant option"

record order_item_row =
  oi_order_id :: int
  oi_menu_item_id :: jsval
  oi_base_name :: jsval
  oi_size_code :: jsstring
  oi_protein :: jsval
  oi_quantity :: jsnum
  oi_unit_price :: jsnum
  oi_total_amount :: jsnum

record db =
  orders :: "order_row list"
  order_items :: "order_item_row list"

text \<open>
  An HTTP response: the JSON payload with status 200, or an error message with its
  status code.
\<close>

datatype 'a response = Success 'a | Failure nat string

text \<open>
  \<open>.single()\<close>: the one row of a result, and an error when the result has no row or more
  than one.
\<close>

fun single :: "'a list \<Rightarrow> 'a option" where
  "single [x] = Some x"
| "single _ = None"

section \<open>POST /api/orders (src/app/api/orders/route.ts)\<close>

text \<open>
  The body of the request: \<open>None\<close> when \<open>request.json()\<close> throws or yields \<open>null\<close>.
  The field \<open>items\<close> (\<open>body_items\<close>) is \<open>None\<close> when it is not an array, so that
  \<open>items.map\<close> throws; \<open>body_totalAmount\<close> is the field \<open>totalAmount\<close>.
  \<open>body_status\<close> stands for a \<open>status\<close> field a client may send; the handler reads
  \<open>items\<close> and \<open>totalAmount\<close> only (\<open>customerInfo\<close> and \<open>customer_notes\<close> are bound and
  never used).
\<close>

record post_body =
  body_items :: "item list option"
  body_totalAmount :: jsval
  body_status :: jsval

text \<open>
  What the handler gets from outside: whether the database client is configured, the
  value of \<open>Math.random()\<close>, the outcome of the insert into \<open>orders\<close> (an error message,
  or the generated columns of the new row), the error of the insert into \<open>order_items\<close>
  if any, and the engine's exponent notation for \<open>parseInt\<close>.
\<close>

record generated_columns =
  gen_order_number :: int
  gen_row_id :: jsval
  gen_created_at :: instant

record post_env =
  supabase :: bool
  random :: rat
  order_insert :: "string + generated_columns"
  items_insert_error :: "string option"
  exp_notation :: "rat \<Rightarrow> jsstring"

text \<open>
  The callback of \<open>items.map\<close>. \<open>baseName\<close> is always truthy; when it is not a string it
  has no method \<open>includes\<close> and the call throws a \<open>TypeError\<close> (\<open>None\<close>).
\<close>

definition split_name :: "jsstring \<Rightarrow> jsstring \<times> jsstring" where
  "split_name baseName =
     (if includes_str baseName (jsstr ''Regular'')
      then (replace_first baseName (jsstr '' Regular'') [], jsstr ''R'')
      else if includes_str baseName (jsstr ''Large'')
      then (replace_first baseName (jsstr '' Large'') [], jsstr ''L'')
      else (baseName, []))"

definition order_item_of :: "(rat \<Rightarrow> jsstring) \<Rightarrow> int \<Rightarrow> item \<Rightarrow> order_item_row option" where
  "order_item_of expn order_no item =
     (let unitPrice = js_parseFloat (price item);
          quantity = js_parseInt expn (quantity item);
          totalAmount = num_mul unitPrice quantity;
          baseName = js_or (js_or (name item) (base_name item)) (JStr (jsstr ''Unknown Item''));
          protein = js_or (js_or (variant item) (protein item)) (JStr (jsstr ''Standard''))
      in case baseName of
           JStr s \<Rightarrow>
             (case split_name s of
                (baseName', sizeCode) \<Rightarrow>
                  Some \<lparr>oi_order_id = order_no,
                        oi_menu_item_id = js_or (menu_item_id item) (item_id item),
                        oi_base_name = JStr baseName',
                        oi_size_code = sizeCode,
                        oi_protein = protein,
                        oi_quantity = quantity,
                        oi_unit_price = unitPrice,
                        oi_total_amount = totalAmount\<rparr>)
         | _ \<Rightarrow> None)"

fun map_items :: "(item \<Rightarrow> order_item_row option) \<Rightarrow> item list \<Rightarrow> order_item_row list option" where
  "map_items f [] = Some []"
| "map_items f (x # xs) =
     (case f x of
        None \<Rightarrow> None
      | Some y \<Rightarrow> (case map_items f xs of None \<Rightarrow> None | Some ys \<Rightarrow> Some (y # ys)))"

text \<open>
  The handler. Every exception inside the \<open>try\<close> block ends in the \<open>catch\<close> block, which
  answers 500 \<open>Internal server error\<close>; the order row inserted before the exception stays.
\<close>

definition verificationNumber_of :: "rat \<Rightarrow> int" where
  "verificationNumber_of r = \<lfloor>1000 + r * 9000\<rfloor>"

definition orders_POST :: "post_env \<Rightarrow> post_body option \<Rightarrow> db \<Rightarrow> order_row response \<times> db" where
  "orders_POST env body d =
     (if \<not> supabase env then (Failure 500 ''Database connection failed'', d)
      else case body of
        None \<Rightarrow> (Failure 500 ''Internal server error'', d)
      | Some b \<Rightarrow>
          (let verificationNumber = verificationNumber_of (random env)
           in case order_insert env of
                Inl message \<Rightarrow> (Failure 500 message, d)
              | Inr gen \<Rightarrow>
                  (let order = \<lparr>row_id = gen_row_id gen,
                                order_number = gen_order_number gen,
                                verification_number = verificationNumber,
                                total_amount = js_parseFloat (body_totalAmount b),
                                status = jsstr ''pending'',
                                created_at = gen_created_at gen,
                                updated_at = None,
                                completed_at = None\<rparr>;
                       d1 = d\<lparr>orders := orders d @ [order]\<rparr>
                   in case body_items b of
                        None \<Rightarrow> (Failure 500 ''Internal server error'', d1)
                      | Some its \<Rightarrow>
                          (case map_items (order_item_of (exp_notation env) (order_number order)) its of
                             None \<Rightarrow> (Failure 500 ''Internal server error'', d1)
                           | Some orderItems \<Rightarrow>
                               (case items_insert_error env of
                                  Some message \<Rightarrow> (Failure 500 message, d1)
                                | None \<Rightarrow>
                                    (Success order,
                                     d1\<lparr>order_items := order_items d1 @ orderItems\<rparr>))))))"

section \<open>SecurityManager.validateTotalAmount (src/lib/security.ts)\<close>

text \<open>
  \<open>reduce\<close> adds \<open>item.price * item.quantity\<close> to the sum, from 0; \<open>*\<close> converts both
  operands to numbers. The result is \<open>Math.abs(calculatedTotal - totalAmount) < 0.01\<close>.
\<close>

definition calculatedTotal :: "item list \<Rightarrow> jsnum" where
  "calculatedTotal its =
     foldl (\<lambda>sum item. num_add sum (num_mul (to_number (price item)) (to_number (quantity item))))
       (Fin 0) its"

definition validateTotalAmount :: "item list \<Rightarrow> jsnum \<Rightarrow> bool" where
  "validateTotalAmount its amount =
     num_lt (num_abs (num_sub (calculatedTotal its) amount)) (Fin (1 / 100))"

section \<open>GET and PUT /api/order-tracking (src/app/api/order-tracking/route.ts)\<close>


definition eq_id_column :: "jsval \<Rightarrow> jsval \<Rightarrow> bool" where
  "eq_id_column col v = (v \<noteq> JUndefined \<and> v \<noteq> JNull \<and> col = v)"



text \<open>
  The \<open>PUT\<close> handler. The body is \<open>None\<close> when \<open>request.json()\<close> throws or yields \<open>null\<close>.
  \<open>.single()\<close> after the update asks for one object: when not exactly one row matches, the
  database answers with an error and changes nothing.
\<close>

record put_body =
  order_id :: jsval
  put_status :: jsval

record put_env =
  put_supabase :: bool
  update_error :: "string option"
  not_single_message :: string
  put_now :: instant

definition validStatuses :: "jsstring list" where
  "validStatuses = [jsstr ''preparing'', jsstr ''ready'', jsstr ''completed'', jsstr ''cancelled'']"

definition authorized :: "jsstring option \<Rightarrow> bool" where
  "authorized authHeader =
     (case authHeader of None \<Rightarrow> False | Some h \<Rightarrow> h \<noteq> [] \<and> prefix (jsstr ''Bearer '') h)"

definition order_tracking_PUT ::
  "put_env \<Rightarrow> jsstring option \<Rightarrow> put_body option \<Rightarrow> db \<Rightarrow> order_row response \<times> db" where
  "order_tracking_PUT env authHeader body d =
     (if \<not> authorized authHeader
      then (Failure 401 ''Unauthorized - Admin access required to update order status'', d)
      else if \<not> put_supabase env then (Failure 500 ''Database connection failed'', d)
      else case body of
        None \<Rightarrow> (Failure 500 ''Internal server error'', d)
      | Some b \<Rightarrow>
          (case put_status b of
             JStr s \<Rightarrow>
               if s \<notin> set validStatuses
               then (Failure 400
                  ''Invalid status. Must be one of: preparing, ready, completed, cancelled'', d)
               else
                 (case update_error env of
                    Some message \<Rightarrow> (Failure 500 message, d)
                  | None \<Rightarrow>
                      (let update = (\<lambda>r. if s = jsstr ''completed''
                                          then r\<lparr>status := s, completed_at := Some (put_now env)\<rparr>
                                          else r\<lparr>status := s\<rparr>)
                       in case single (filter (\<lambda>r. eq_id_column (row_id r) (order_id b)) (orders d)) of
                            None \<Rightarrow> (Failure 500 (not_single_message env), d)
                          | Some r0 \<Rightarrow>
                              (Success (update r0),
                               d\<lparr>orders := map (\<lambda>r. if eq_id_column (row_id r) (order_id b)
                                                     then update r else r) (orders d)\<rparr>)))
           | _ \<Rightarrow> (Failure 400
                  ''Invalid status. Must be one of: preparing, ready, completed, cancelled'', d)))"

section \<open>The staff dashboard: loadOrders and updateOrderStatus (OrdersManagement, src/unnamed/part_000)\<close>

text \<open>
  The component's state that the two functions write: the orders shown, the status
  selected for each, and the items of each, keyed by order number. The spinner flags
  \<open>isLoading\<close> and \<open>updatingOrders\<close> are left out.
\<close>

record dashboard =
  ui_orders :: "order_row list"
  selectedStatuses :: "int \<rightharpoonup> jsstring"
  orderItems :: "int \<rightharpoonup> order_item_row list"

record dash_env =
  dash_supabase :: bool
  orders_query_fails :: bool
  order_items_query_fails :: bool
  dash_update_fails :: bool
  dash_now :: instant

text \<open>
  The query of \<open>loadOrders\<close>: the rows of \<open>orders\<close> whose status is not \<open>completed\<close>,
  newest first (rows created at the same instant come in an order the database chooses;
  here the later row of the table first).
\<close>

definition active_orders :: "db \<Rightarrow> order_row list" where
  "active_orders d =
     rev (sort_key created_at (filter (\<lambda>r. status r \<noteq> jsstr ''completed'') (orders d)))"

definition group_items :: "order_item_row list \<Rightarrow> (int \<rightharpoonup> order_item_row list)" where
  "group_items itemsData =
     (\<lambda>n. if \<exists>i \<in> set itemsData. oi_order_id i = n
          then Some (filter (\<lambda>i. oi_order_id i = n) itemsData) else None)"

definition loadOrders :: "dash_env \<Rightarrow> db \<Rightarrow> dashboard \<Rightarrow> dashboard" where
  "loadOrders env d ui =
     (if \<not> dash_supabase env then ui
      else if orders_query_fails env then ui
      else
        (let ordersData = active_orders d;
             ui1 = ui\<lparr>ui_orders := ordersData,
                      selectedStatuses := map_of (map (\<lambda>r. (order_number r, status r)) (rev ordersData))\<rparr>
         in if ordersData \<noteq> [] \<and> \<not> order_items_query_fails env
            then ui1\<lparr>orderItems :=
                   group_items (filter (\<lambda>i. oi_order_id i \<in> order_number ` set ordersData)
                                  (order_items d))\<rparr>
            else ui1))"

text \<open>
  \<open>updateOrderStatus\<close> of the dashboard: the update has no \<open>.single()\<close>, so it changes
  every row with the order number. The result is the store, the component's state, and
  whether the failure alert was shown.
\<close>

definition dashboard_updateOrderStatus ::
  "dash_env \<Rightarrow> int \<Rightarrow> jsstring \<Rightarrow> db \<Rightarrow> dashboard \<Rightarrow> db \<times> dashboard \<times> bool" where
  "dashboard_updateOrderStatus env orderNo newStatus d ui =
     (if \<not> dash_supabase env then (d, ui, False)
      else
        (let finalStatus = (if newStatus = jsstr ''collected'' then jsstr ''completed'' else newStatus)
         in if dash_update_fails env then (d, ui, True)
            else
              (let d' = d\<lparr>orders :=
                          map (\<lambda>r. if order_number r = orderNo
                                    then r\<lparr>status := finalStatus, updated_at := Some (dash_now env)\<rparr>
                                    else r) (orders d)\<rparr>
               in if newStatus = jsstr ''collected''
                  then (d',
                        ui\<lparr>ui_orders := filter (\<lambda>x. order_number x \<noteq> orderNo) (ui_orders ui),
                           selectedStatuses := (selectedStatuses ui)(orderNo := None)\<rparr>,
                        False)
                  else (d', loadOrders env d' ui, False))))"

text \<open>
  The environment and the request of one placement: the example of the specification (two
  Montana BBQ Hamburger Regular at 280 each, total 560), sent with a \<open>status\<close> field of
  the client's own, into an empty store. The database gives the new row the number 7.
\<close>

definition sample_env :: post_env where
  "sample_env =
     \<lparr>supabase = True, random = 1 / 2,
      order_insert = Inr \<lparr>gen_order_number = 7, gen_row_id = JUndefined, gen_created_at = 1000\<rparr>,
      items_insert_error = None,
      exp_notation = (\<lambda>r. [])\<rparr>"

definition sample_body :: post_body where
  "sample_body =
     \<lparr>body_items = Some [montana_item], body_totalAmount = JNum (Fin 560),
      body_status = JStr (jsstr ''completed'')\<rparr>"

definition empty_db :: db where
  "empty_db = \<lparr>orders = [], order_items = []\<rparr>"

definition sample_order :: order_row where
  "sample_order =
     \<lparr>row_id = JUndefined, order_number = 7, verification_number = 5500,
      total_amount = Fin 560, status = jsstr ''pending'', created_at = 1000,
      updated_at = None, completed_at = None\<rparr>"

definition sample_order_item :: order_item_row where
  "sample_order_item =
     \<lparr>oi_order_id = 7, oi_menu_item_id = JNum (Fin 1),
      oi_base_name = JStr (jsstr ''Montana BBQ Hamburger''), oi_size_code = jsstr ''R'',
      oi_protein = JStr (jsstr ''Beef''), oi_quantity = Fin 2, oi_unit_price = Fin 280,
      oi_total_amount = Fin 560\<rparr>"

text \<open>
  The same request with a total that is not the sum of its lines (1 instead of 560), and
  an environment in which the insert of the order row fails.
\<close>

definition wrong_total_body :: post_body where
  "wrong_total_body = sample_body\<lparr>body_totalAmount := JNum (Fin 1)\<rparr>"

definition failing_env :: post_env where
  "failing_env = sample_env\<lparr>order_insert := Inl ''insert failed''\<rparr>"

text \<open>
  A store with three orders: 7 is pending, 8 is completed, 9 is ready; and a dashboard
  that shows nothing yet.
\<close>

definition order7 :: order_row where
  "order7 = \<lparr>row_id = JStr (jsstr ''a7''), order_number = 7, verification_number = 5500,
             total_amount = Fin 560, status = jsstr ''pending'', created_at = 1000,
             updated_at = None, completed_at = None\<rparr>"

definition order8 :: order_row where
  "order8 = \<lparr>row_id = JStr (jsstr ''a8''), order_number = 8, verification_number = 1234,
             total_amount = Fin 280, status = jsstr ''completed'', created_at = 2000,
             updated_at = Some 2500, completed_at = None\<rparr>"

definition order9 :: order_row where
  "order9 = \<lparr>row_id = JStr (jsstr ''a9''), order_number = 9, verification_number = 9999,
             total_amount = Fin 25, status = jsstr ''ready'', created_at = 3000,
             updated_at = Some 3500, completed_at = None\<rparr>"

definition three_orders :: db where
  "three_orders = \<lparr>orders = [order7, order8, order9], order_items = []\<rparr>"

definition blank_dashboard :: dashboard where
  "blank_dashboard = \<lparr>ui_orders = [], selectedStatuses = Map.empty, orderItems = Map.empty\<rparr>"

definition working_dash :: dash_env where
  "working_dash =
     \<lparr>dash_supabase = True, orders_query_fails = False, order_items_query_fails = False,
      dash_update_fails = False, dash_now = 4000\<rparr>"

text \<open>
  An authorised \<open>PUT\<close> for order 9 of the store above, in a working environment: once with
  the status \<open>collected\<close>, once with \<open>completed\<close>.
\<close>

definition working_put :: put_env where
  "working_put =
     \<lparr>put_supabase = True, update_error = None,
      not_single_message = ''JSON object requested, multiple (or no) rows returned'',
      put_now = 4000\<rparr>"

definition bearer :: "jsstring option" where
  "bearer = Some (jsstr ''Bearer token'')"

definition collected_body :: put_body where
  "collected_body = \<lparr>order_id = JStr (jsstr ''a9''), put_status = JStr (jsstr ''collected'')\<rparr>"

definition completed_body :: put_body where
  "completed_body = \<lparr>order_id = JStr (jsstr ''a9''), put_status = JStr (jsstr ''completed'')\<rparr>"

text \<open>The status the dashboard writes for a requested one, and the rows a store gains.\<close>

definition finalStatus_of :: "jsstring \<Rightarrow> jsstring" where
  "finalStatus_of newStatus =
     (if newStatus = jsstr ''collected'' then jsstr ''completed'' else newStatus)"

definition invalid_status_message :: string where
  "invalid_status_message =
     ''Invalid status. Must be one of: preparing, ready, completed, cancelled''"








chapter \<open>Properties\<close>

section \<open>The rate limiter\<close>

lemma run_calls_length: "length (fst (run_calls m calls)) = length calls"
proof (induction calls arbitrary: m)
  case Nil
  then show ?case by simp
next
  case (Cons x calls)
  obtain n c where x: "x = (n, c)" by (cases x)
  obtain ok m1 where ck: "checkOrderCreationRateLimit n c m = (ok, m1)"
    by (cases "checkOrderCreationRateLimit n c m")
  obtain oks m2 where r: "run_calls m1 calls = (oks, m2)" by (cases "run_calls m1 calls")
  from Cons [of m1] r have "length oks = length calls" by simp
  then show ?case by (simp add: x ck r)
qed

lemma run_calls_append:
  "run_calls m (xs @ ys) =
     (case run_calls m xs of (a, m') \<Rightarrow> (case run_calls m' ys of (b, m'') \<Rightarrow> (a @ b, m'')))"
  by (induction xs arbitrary: m) (auto split: prod.splits)

lemma allowed_times_snoc:
  "length calls = length outs \<Longrightarrow>
   allowed_times c (calls @ [(t, c')]) (outs @ [ok]) =
     allowed_times c calls outs @ (if clientId_of c' = c \<and> ok then [t] else [])"
  by (simp add: allowed_times_def)

lemma check_outcome:
  "checkOrderCreationRateLimit now arg m = (ok, m') \<Longrightarrow>
     ok = (length (filter (\<lambda>t. now - t < windowMs) (stored m (clientId_of arg))) < maxAttempts)"
  by (auto simp: checkOrderCreationRateLimit_def clientId_of_def stored_def Let_def
      split: if_splits)

lemma check_recorded:
  "checkOrderCreationRateLimit now arg m = (True, m') \<Longrightarrow>
     stored m' (clientId_of arg) =
       filter (\<lambda>t. now - t < windowMs) (stored m (clientId_of arg)) @ [now]"
  by (auto simp: checkOrderCreationRateLimit_def clientId_of_def stored_def Let_def
      split: if_splits)

lemma check_refused:
  "checkOrderCreationRateLimit now arg m = (False, m') \<Longrightarrow> m' = m"
  by (auto simp: checkOrderCreationRateLimit_def Let_def split: if_splits)

lemma check_other:
  "checkOrderCreationRateLimit now arg m = (ok, m') \<Longrightarrow> d \<noteq> clientId_of arg \<Longrightarrow>
     stored m' d = stored m d"
  by (auto simp: checkOrderCreationRateLimit_def clientId_of_def stored_def Let_def
      split: if_splits)

lemma filter_recent_mono:
  "n \<le> now \<Longrightarrow>
   filter (\<lambda>t. now - t < windowMs) (filter (\<lambda>t. n - t < windowMs) xs) =
   filter (\<lambda>t. now - t < (windowMs::int)) xs"
  by (induction xs) auto

lemma stored_invariant:
  "sorted (map fst calls) \<Longrightarrow> run_calls Map.empty calls = (outs, m) \<Longrightarrow>
   \<forall>t \<in> set (map fst calls). t \<le> now \<Longrightarrow>
   filter (\<lambda>t. now - t < windowMs) (stored m c) =
   filter (\<lambda>t. now - t < windowMs) (allowed_times c calls outs)"
proof (induction calls arbitrary: outs m now rule: rev_induct)
  case Nil
  then show ?case by (auto simp: stored_def allowed_times_def)
next
  case (snoc x calls)
  obtain n c' where x: "x = (n, c')" by (cases x)
  obtain outs0 m0 where r0: "run_calls Map.empty calls = (outs0, m0)" by (cases "run_calls Map.empty calls")
  obtain ok m1 where ck: "checkOrderCreationRateLimit n c' m0 = (ok, m1)"
    by (cases "checkOrderCreationRateLimit n c' m0")
  from snoc.prems(2) r0 ck x have outs: "outs = outs0 @ [ok]" and m: "m = m1"
    by (auto simp: run_calls_append)
  have len: "length calls = length outs0"
    using run_calls_length [of Map.empty calls] r0 by simp
  from snoc.prems(1) have srt: "sorted (map fst calls)" and le_n: "\<forall>t \<in> set (map fst calls). t \<le> n"
    by (auto simp: x sorted_append)
  from snoc.prems(3) have n_now: "n \<le> now" and le_now: "\<forall>t \<in> set (map fst calls). t \<le> now"
    by (auto simp: x)
  note IH = snoc.IH [OF srt r0]
  show ?case
  proof (cases "clientId_of c' = c \<and> ok")
    case True
    then have eq: "clientId_of c' = c" and "checkOrderCreationRateLimit n c' m0 = (True, m1)"
      using ck by simp_all
    then have "stored m1 c = filter (\<lambda>t. n - t < windowMs) (stored m0 c) @ [n]"
      using check_recorded [of n c' m0 m1] by simp
    then have "filter (\<lambda>t. now - t < windowMs) (stored m1 c) =
               filter (\<lambda>t. now - t < windowMs) (stored m0 c) @ filter (\<lambda>t. now - t < windowMs) [n]"
      using filter_recent_mono [OF n_now] by simp
    also have "filter (\<lambda>t. now - t < windowMs) (stored m0 c) =
               filter (\<lambda>t. now - t < windowMs) (allowed_times c calls outs0)"
      using IH [OF le_now] .
    finally show ?thesis
      using True by (simp add: m outs x allowed_times_snoc [OF len])
  next
    case False
    have "stored m1 c = stored m0 c"
    proof (cases "clientId_of c' = c")
      case True
      with False have "checkOrderCreationRateLimit n c' m0 = (False, m1)"
        using ck by simp
      then have "m1 = m0" by (rule check_refused)
      then show ?thesis by simp
    next
      case False
      then show ?thesis using check_other [OF ck, of c] by auto
    qed
    then show ?thesis
      using False IH [OF le_now] by (simp add: m outs x allowed_times_snoc [OF len])
  qed
qed


lemma length_filter_imp:
  "(\<And>x. x \<in> set xs \<Longrightarrow> P x \<Longrightarrow> Q x) \<Longrightarrow> length (filter P xs) \<le> length (filter Q xs)"
  by (induction xs) auto

lemma run_calls_snoc:
  assumes "run_calls m0 (calls @ [(n, c')]) = (outs, m)"
  obtains outs0 m1 ok where "run_calls m0 calls = (outs0, m1)"
    and "checkOrderCreationRateLimit n c' m1 = (ok, m)" and "outs = outs0 @ [ok]"
    and "length calls = length outs0"
proof -
  obtain outs0 m1 where r0: "run_calls m0 calls = (outs0, m1)" by (cases "run_calls m0 calls")
  obtain ok m2 where ck: "checkOrderCreationRateLimit n c' m1 = (ok, m2)"
    by (cases "checkOrderCreationRateLimit n c' m1")
  from assms r0 ck have "outs = outs0 @ [ok]" and "m = m2"
    by (auto simp: run_calls_append)
  moreover have "length calls = length outs0"
    using run_calls_length [of m0 calls] r0 by simp
  ultimately show ?thesis using that r0 ck by blast
qed

lemma window_bound:
  "sorted (map fst calls) \<Longrightarrow> run_calls Map.empty calls = (outs, m) \<Longrightarrow>
   length (filter (\<lambda>t. a \<le> t \<and> t < a + windowMs) (allowed_times c calls outs)) \<le> maxAttempts"
proof (induction calls arbitrary: outs m rule: rev_induct)
  case Nil
  then show ?case by (auto simp: allowed_times_def)
next
  case (snoc x calls)
  obtain n c' where x: "x = (n, c')" by (cases x)
  from snoc.prems(2) obtain outs0 m0 ok where r0: "run_calls Map.empty calls = (outs0, m0)"
    and ck: "checkOrderCreationRateLimit n c' m0 = (ok, m)"
    and outs: "outs = outs0 @ [ok]" and len: "length calls = length outs0"
    unfolding x by (rule run_calls_snoc)
  from snoc.prems(1) have srt: "sorted (map fst calls)" and le_n: "\<forall>t \<in> set (map fst calls). t \<le> n"
    by (auto simp: x sorted_append)
  note IH = snoc.IH [OF srt r0]
  let ?old = "allowed_times c calls outs0"
  show ?case
  proof (cases "clientId_of c' = c \<and> ok \<and> a \<le> n \<and> n < a + windowMs")
    case False
    then show ?thesis
      using IH by (auto simp: outs x allowed_times_snoc [OF len])
  next
    case True
    then have eq: "clientId_of c' = c" and ok: ok by simp_all
    have "ok = (length (filter (\<lambda>t. n - t < windowMs) (stored m0 c)) < maxAttempts)"
      using check_outcome [OF ck] unfolding eq .
    with ok have "length (filter (\<lambda>t. n - t < windowMs) (stored m0 c)) < maxAttempts"
      by blast
    then have recent: "length (filter (\<lambda>t. n - t < windowMs) ?old) < maxAttempts"
      using stored_invariant [OF srt r0 le_n, of c] by simp
    have "length (filter (\<lambda>t. a \<le> t \<and> t < a + windowMs) ?old)
            \<le> length (filter (\<lambda>t. n - t < windowMs) ?old)"
      using True by (intro length_filter_imp) auto
    with recent show ?thesis
      using True by (simp add: outs x allowed_times_snoc [OF len])
  qed
qed

lemma call_outcome:
  assumes srt: "sorted (map fst calls)" and i: "i < length calls"
  shows "fst (run_calls Map.empty calls) ! i =
     (length (filter (\<lambda>t. fst (calls ! i) - t < windowMs)
        (allowed_times (clientId_of (snd (calls ! i))) (take i calls)
           (take i (fst (run_calls Map.empty calls)))))
      < maxAttempts)"
proof -
  obtain n c where ci: "calls ! i = (n, c)" by (cases "calls ! i")
  have split: "calls = (take i calls @ [(n, c)]) @ drop (Suc i) calls"
    using i ci id_take_nth_drop [of i calls] by simp
  obtain outs1 m1 where r1: "run_calls Map.empty (take i calls @ [(n, c)]) = (outs1, m1)"
    by (cases "run_calls Map.empty (take i calls @ [(n, c)])")
  then obtain outs0 m0 ok where r0: "run_calls Map.empty (take i calls) = (outs0, m0)"
    and ck: "checkOrderCreationRateLimit n c m0 = (ok, m1)"
    and outs1: "outs1 = outs0 @ [ok]" and len: "length (take i calls) = length outs0"
    by (rule run_calls_snoc)
  obtain outs2 m2 where r2: "run_calls m1 (drop (Suc i) calls) = (outs2, m2)"
    by (cases "run_calls m1 (drop (Suc i) calls)")
  have "run_calls Map.empty calls = (outs1 @ outs2, m2)"
    using r1 r2 run_calls_append [of Map.empty "take i calls @ [(n, c)]" "drop (Suc i) calls"] split
    by simp
  then have outs: "fst (run_calls Map.empty calls) = outs0 @ ok # outs2"
    by (simp add: outs1)
  have leni: "length outs0 = i" using len i by simp
  have at_i: "fst (run_calls Map.empty calls) ! i = ok"
    using outs leni by (simp add: nth_append)
  have pre: "take i (fst (run_calls Map.empty calls)) = outs0"
    using outs leni by simp
  have srt0: "sorted (map fst (take i calls))"
    using srt by (metis sorted_wrt_take take_map)
  have le_n: "\<forall>t \<in> set (map fst (take i calls)). t \<le> n"
  proof
    fix t assume "t \<in> set (map fst (take i calls))"
    then obtain j where j: "j < i" and t: "t = fst (calls ! j)"
      using i by (auto simp: in_set_conv_nth)
    have "map fst calls ! j \<le> map fst calls ! i"
      using srt j i by (intro sorted_nth_mono) auto
    then show "t \<le> n" using t ci j i by simp
  qed
  have "ok = (length (filter (\<lambda>t. n - t < windowMs) (stored m0 (clientId_of c))) < maxAttempts)"
    by (rule check_outcome [OF ck])
  then show ?thesis
    using stored_invariant [OF srt0 r0 le_n, of "clientId_of c"] at_i pre ci by simp
qed

text \<open>
  Claim C6. Calls arrive in clock order and the map starts empty, as the static field does.
  A call passes a client token or none; the token it counts against is the one it passes,
  or \<open>'anonymous'\<close> when it passes none. Then (1) each call returns \<open>true\<close> exactly when
  fewer than 5 earlier calls that counted against the same token returned \<open>true\<close> less
  than 60000 ms before it, so an attempt that is 60 seconds old or older never counts;
  (2) for every token, at most 5 calls that returned \<open>true\<close> lie in any window
  \<open>[a, a + 60000)\<close>; (3) a call that returns \<open>true\<close> is recorded as the newest entry
  of its token, and a call that returns \<open>false\<close> changes nothing.
\<close>

theorem rate_limit_sliding_window:
  assumes "sorted (map fst calls)"
  shows "(\<forall>i<length calls.
            fst (run_calls Map.empty calls) ! i =
              (length (filter (\<lambda>t. fst (calls ! i) - t < 60000)
                 (allowed_times (clientId_of (snd (calls ! i))) (take i calls)
                    (take i (fst (run_calls Map.empty calls))))) < 5))
       \<and> (\<forall>c a. length (filter (\<lambda>t. a \<le> t \<and> t < a + 60000)
                 (allowed_times c calls (fst (run_calls Map.empty calls)))) \<le> 5)
       \<and> (\<forall>now arg m. case checkOrderCreationRateLimit now arg m of
                 (ok, m') \<Rightarrow>
                   if ok then stored m' (clientId_of arg) =
                                filter (\<lambda>t. now - t < 60000) (stored m (clientId_of arg)) @ [now]
                   else m' = m)
       \<and> clientId_of None = jsstr ''anonymous'' \<and> (\<forall>c. clientId_of (Some c) = c)"
proof (intro conjI allI impI)
  fix i assume "i < length calls"
  from call_outcome [OF assms this]
  show "fst (run_calls Map.empty calls) ! i =
          (length (filter (\<lambda>t. fst (calls ! i) - t < 60000)
             (allowed_times (clientId_of (snd (calls ! i))) (take i calls)
                (take i (fst (run_calls Map.empty calls))))) < 5)"
    by (simp add: windowMs_def maxAttempts_def)
next
  fix c a
  obtain outs m where r: "run_calls Map.empty calls = (outs, m)"
    by (cases "run_calls Map.empty calls")
  from window_bound [OF assms r, of a c]
  show "length (filter (\<lambda>t. a \<le> t \<and> t < a + 60000)
          (allowed_times c calls (fst (run_calls Map.empty calls)))) \<le> 5"
    by (simp add: r windowMs_def maxAttempts_def)
next
  fix now arg m
  obtain ok m' where ck: "checkOrderCreationRateLimit now arg m = (ok, m')"
    by (cases "checkOrderCreationRateLimit now arg m")
  show "case checkOrderCreationRateLimit now arg m of
          (ok, m') \<Rightarrow>
            if ok then stored m' (clientId_of arg) =
                         filter (\<lambda>t. now - t < 60000) (stored m (clientId_of arg)) @ [now]
            else m' = m"
  proof (cases ok)
    case True
    with ck check_recorded [of now arg m m'] show ?thesis by (simp add: windowMs_def)
  next
    case False
    with ck check_refused [of now arg m m'] show ?thesis by simp
  qed
next
  show "clientId_of None = jsstr ''anonymous''"
    by (simp add: clientId_of_def)
next
  fix c show "clientId_of (Some c) = c"
    by (simp add: clientId_of_def)
qed

lemma burst_calls_sorted: "sorted (map fst burst_calls)"
  by (simp add: burst_calls_def)

lemma burst_calls_outcomes:
  "fst (run_calls Map.empty burst_calls) = [True, True, True, True, True, False, True]"
  by code_simp

lemma anonymous_calls_sorted: "sorted (map fst anonymous_calls)"
  by (simp add: anonymous_calls_def)

lemma anonymous_calls_outcomes:
  "fst (run_calls Map.empty anonymous_calls) = [True, True, True, True, True, False]"
  by code_simp

theorem rate_limit_sliding_window_witness:
  "sorted (map fst burst_calls)
   \<and> fst (run_calls Map.empty burst_calls) = [True, True, True, True, True, False, True]
   \<and> fst (run_calls Map.empty burst_calls) ! 5 =
         (length (filter (\<lambda>t. fst (burst_calls ! 5) - t < 60000)
            (allowed_times (clientId_of (snd (burst_calls ! 5))) (take 5 burst_calls)
               (take 5 (fst (run_calls Map.empty burst_calls))))) < 5)
   \<and> length (filter (\<lambda>t. 0 \<le> t \<and> t < 0 + 60000)
         (allowed_times (jsstr ''t'') burst_calls (fst (run_calls Map.empty burst_calls)))) \<le> 5
   \<and> sorted (map fst anonymous_calls)
   \<and> fst (run_calls Map.empty anonymous_calls) = [True, True, True, True, True, False]
   \<and> fst (run_calls Map.empty anonymous_calls) ! 5 =
         (length (filter (\<lambda>t. fst (anonymous_calls ! 5) - t < 60000)
            (allowed_times (clientId_of (snd (anonymous_calls ! 5))) (take 5 anonymous_calls)
               (take 5 (fst (run_calls Map.empty anonymous_calls))))) < 5)
   \<and> length (filter (\<lambda>t. 0 \<le> t \<and> t < 0 + 60000)
         (allowed_times (jsstr ''anonymous'') anonymous_calls
            (fst (run_calls Map.empty anonymous_calls)))) \<le> 5"
proof -
  note inst = rate_limit_sliding_window [OF burst_calls_sorted]
  have len: "5 < length burst_calls"
    by (simp add: burst_calls_def)
  from inst have "\<forall>i<length burst_calls.
            fst (run_calls Map.empty burst_calls) ! i =
              (length (filter (\<lambda>t. fst (burst_calls ! i) - t < 60000)
                 (allowed_times (clientId_of (snd (burst_calls ! i))) (take i burst_calls)
                    (take i (fst (run_calls Map.empty burst_calls))))) < 5)"
    by (rule conjunct1)
  with len have a: "fst (run_calls Map.empty burst_calls) ! 5 =
         (length (filter (\<lambda>t. fst (burst_calls ! 5) - t < 60000)
            (allowed_times (clientId_of (snd (burst_calls ! 5))) (take 5 burst_calls)
               (take 5 (fst (run_calls Map.empty burst_calls))))) < 5)"
    by blast
  from inst have "\<forall>c a. length (filter (\<lambda>t. a \<le> t \<and> t < a + 60000)
                 (allowed_times c burst_calls (fst (run_calls Map.empty burst_calls)))) \<le> 5"
    by (elim conjE)
  then have b: "length (filter (\<lambda>t. 0 \<le> t \<and> t < 0 + 60000)
         (allowed_times (jsstr ''t'') burst_calls (fst (run_calls Map.empty burst_calls)))) \<le> 5"
    by (elim allE)
  note inst' = rate_limit_sliding_window [OF anonymous_calls_sorted]
  have len': "5 < length anonymous_calls"
    by (simp add: anonymous_calls_def)
  from inst' have "\<forall>i<length anonymous_calls.
            fst (run_calls Map.empty anonymous_calls) ! i =
              (length (filter (\<lambda>t. fst (anonymous_calls ! i) - t < 60000)
                 (allowed_times (clientId_of (snd (anonymous_calls ! i))) (take i anonymous_calls)
                    (take i (fst (run_calls Map.empty anonymous_calls))))) < 5)"
    by (rule conjunct1)
  with len' have a': "fst (run_calls Map.empty anonymous_calls) ! 5 =
         (length (filter (\<lambda>t. fst (anonymous_calls ! 5) - t < 60000)
            (allowed_times (clientId_of (snd (anonymous_calls ! 5))) (take 5 anonymous_calls)
               (take 5 (fst (run_calls Map.empty anonymous_calls))))) < 5)"
    by blast
  from inst' have "\<forall>c a. length (filter (\<lambda>t. a \<le> t \<and> t < a + 60000)
                 (allowed_times c anonymous_calls (fst (run_calls Map.empty anonymous_calls)))) \<le> 5"
    by (elim conjE)
  then have b': "length (filter (\<lambda>t. 0 \<le> t \<and> t < 0 + 60000)
         (allowed_times (jsstr ''anonymous'') anonymous_calls
            (fst (run_calls Map.empty anonymous_calls)))) \<le> 5"
    by (elim allE)
  show ?thesis
    using burst_calls_sorted burst_calls_outcomes a b
      anonymous_calls_sorted anonymous_calls_outcomes a' b'
    by (intro conjI)
qed

section \<open>Unsubscribing from an order\<close>

lemma subscribers_of_step:
  "tracking_step c ts = (ts', invoked) \<Longrightarrow>
   (case c of SubscribeToOrder n' cb' \<Rightarrow>
        subscribers_of ts' k = (if k = n' then subscribers_of ts k @ [cb'] else subscribers_of ts k)
    | UnsubscribeFromOrder n' cb' \<Rightarrow>
        subscribers_of ts' k = (if k = n' then remove1 cb' (subscribers_of ts k) else subscribers_of ts k)
    | ResetSystem \<Rightarrow> subscribers_of ts' k = []
    | _ \<Rightarrow> subscribers_of ts' k = subscribers_of ts k)"
  by (cases c)
     (auto simp: subscribers_of_def initializeOrder_def updateOrderStatus_def subscribeToOrder_def
        unsubscribeFromOrder_def simulateStatusUpdate_def setCurrentOrderBeingPrepared_def
        subscribeToCurrentOrder_def unsubscribeFromCurrentOrder_def resetSystem_def
        getOrderTracking_def Let_def remove1_idem
        split: option.splits if_splits)

lemma updateOrderStatus_invoked:
  "updateOrderStatus now n s ts = (ts', invoked) \<Longrightarrow>
   fst ` set invoked \<subseteq> set (subscribers_of ts n)"
  by (auto simp: updateOrderStatus_def subscribers_of_def Let_def split: option.splits)

lemma step_invoked:
  "tracking_step c ts = (ts', invoked) \<Longrightarrow> cb \<in> fst ` set invoked \<Longrightarrow>
   \<exists>k. cb \<in> set (subscribers_of ts k)"
proof (cases c)
  case (UpdateOrderStatus now n s)
  assume "tracking_step c ts = (ts', invoked)" and "cb \<in> fst ` set invoked"
  then show ?thesis
    using updateOrderStatus_invoked [of now n s ts ts' invoked] UpdateOrderStatus by auto
next
  case (SimulateStatusUpdate now n)
  assume a: "tracking_step c ts = (ts', invoked)" and b: "cb \<in> fst ` set invoked"
  show ?thesis
  proof (cases "getOrderTracking n ts")
    case None
    with a b SimulateStatusUpdate show ?thesis by (simp add: simulateStatusUpdate_def)
  next
    case (Some current)
    with a SimulateStatusUpdate obtain s where "updateOrderStatus now n s ts = (ts', invoked)"
      by (auto simp: simulateStatusUpdate_def Let_def)
    from updateOrderStatus_invoked [OF this] b show ?thesis by auto
  qed
qed auto

lemma notin_remove1: "x \<notin> set xs \<Longrightarrow> x \<notin> set (remove1 y xs)"
  by (metis notin_set_remove1)

lemma count_list_remove1_le: "count_list (remove1 y xs) x \<le> count_list xs x"
  by (induction xs) auto

lemma count_le1_remove1: "count_list xs x \<le> 1 \<Longrightarrow> x \<notin> set (remove1 x xs)"
  by (induction xs) (auto simp: count_list_0_iff)

lemma absent_step:
  assumes "tracking_step c ts = (ts', invoked)" and "\<not> resubscribes cb c" and "absent cb ts"
  shows "absent cb ts'"
  unfolding absent_def
proof
  fix k
  from assms(3) have old: "cb \<notin> set (subscribers_of ts k)" by (simp add: absent_def)
  from subscribers_of_step [OF assms(1), of k] assms(2) old
  show "cb \<notin> set (subscribers_of ts' k)"
    by (cases c) (auto simp: resubscribes_def notin_remove1 split: if_splits)
qed

lemma at_most_once_step:
  assumes "tracking_step c ts = (ts', invoked)" and "\<not> resubscribes cb c" and "at_most_once n cb ts"
  shows "at_most_once n cb ts'"
  unfolding at_most_once_def
proof (intro conjI allI impI)
  fix k assume "k \<noteq> n"
  with assms(3) have old: "cb \<notin> set (subscribers_of ts k)" by (simp add: at_most_once_def)
  from subscribers_of_step [OF assms(1), of k] assms(2) old
  show "cb \<notin> set (subscribers_of ts' k)"
    by (cases c) (auto simp: resubscribes_def notin_remove1 split: if_splits)
next
  from assms(3) have old: "count_list (subscribers_of ts n) cb \<le> 1" by (simp add: at_most_once_def)
  have "count_list (subscribers_of ts' n) cb \<le> count_list (subscribers_of ts n) cb"
    using subscribers_of_step [OF assms(1), of n] assms(2)
    by (cases c) (auto simp: resubscribes_def count_list_remove1_le split: if_splits)
  with old show "count_list (subscribers_of ts' n) cb \<le> 1" by simp
qed

lemma at_most_once_run:
  "tracking_run cs ts = (ts', invoked) \<Longrightarrow> \<forall>c \<in> set cs. \<not> resubscribes cb c \<Longrightarrow>
   at_most_once n cb ts \<Longrightarrow> at_most_once n cb ts'"
proof (induction cs arbitrary: ts ts' invoked)
  case Nil
  then show ?case by simp
next
  case (Cons c cs)
  obtain ts1 inv1 where st: "tracking_step c ts = (ts1, inv1)" by (cases "tracking_step c ts")
  obtain ts2 inv2 where r: "tracking_run cs ts1 = (ts2, inv2)" by (cases "tracking_run cs ts1")
  from Cons.prems(1) st r have eq: "ts' = ts2" by simp
  have "at_most_once n cb ts1"
    using at_most_once_step [OF st] Cons.prems by simp
  then show ?case
    using Cons.IH [OF r] Cons.prems(2) eq by simp
qed

lemma absent_run:
  "tracking_run cs ts = (ts', invoked) \<Longrightarrow> \<forall>c \<in> set cs. \<not> resubscribes cb c \<Longrightarrow>
   absent cb ts \<Longrightarrow> absent cb ts' \<and> cb \<notin> fst ` set invoked"
proof (induction cs arbitrary: ts ts' invoked)
  case Nil
  then show ?case by simp
next
  case (Cons c cs)
  obtain ts1 inv1 where st: "tracking_step c ts = (ts1, inv1)" by (cases "tracking_step c ts")
  obtain ts2 inv2 where r: "tracking_run cs ts1 = (ts2, inv2)" by (cases "tracking_run cs ts1")
  from Cons.prems(1) st r have eq: "ts' = ts2" "invoked = inv1 @ inv2" by simp_all
  have a1: "absent cb ts1"
    using absent_step [OF st] Cons.prems by simp
  have "cb \<notin> fst ` set inv1"
    using step_invoked [OF st, of cb] Cons.prems(3) by (auto simp: absent_def)
  moreover have "absent cb ts2 \<and> cb \<notin> fst ` set inv2"
    using Cons.IH [OF r _ a1] Cons.prems(2) by simp
  ultimately show ?case
    using eq by auto
qed

lemma subscribe_at_most_once:
  assumes "absent cb ts"
  shows "at_most_once n cb (fst (subscribeToOrder n cb ts))"
  unfolding at_most_once_def
proof (intro conjI allI impI)
  have st: "tracking_step (SubscribeToOrder n cb) ts = (fst (subscribeToOrder n cb ts), [])" by simp
  {
    fix k assume "k \<noteq> n"
    with subscribers_of_step [OF st, of k] assms
    show "cb \<notin> set (subscribers_of (fst (subscribeToOrder n cb ts)) k)"
      by (simp add: absent_def)
  }
  from assms have "count_list (subscribers_of ts n) cb = 0"
    by (simp add: absent_def count_list_0_iff)
  with subscribers_of_step [OF st, of n]
  show "count_list (subscribers_of (fst (subscribeToOrder n cb ts)) n) cb \<le> 1"
    by simp
qed

lemma unsubscribe_absent:
  "at_most_once n cb ts \<Longrightarrow> absent cb (unsubscribeFromOrder n cb ts)"
  unfolding absent_def at_most_once_def
proof
  fix k assume a: "(\<forall>k. k \<noteq> n \<longrightarrow> cb \<notin> set (subscribers_of ts k)) \<and> count_list (subscribers_of ts n) cb \<le> 1"
  have st: "tracking_step (UnsubscribeFromOrder n cb) ts = (unsubscribeFromOrder n cb ts, [])" by simp
  from subscribers_of_step [OF st, of k] a count_le1_remove1 [of "subscribers_of ts n" cb]
  show "cb \<notin> set (subscribers_of (unsubscribeFromOrder n cb ts) k)"
    by (auto split: if_splits)
qed

text \<open>
  Claim C7. A callback \<open>cb\<close> that is in no subscriber array subscribes to order \<open>n\<close>; any
  calls follow that do not subscribe \<open>cb\<close> again (it is registered once); the function
  that the subscription returned is called; any further calls follow, again without
  subscribing \<open>cb\<close>. Then none of the callbacks invoked by those further calls, whatever
  order and status their \<open>updateOrderStatus\<close> name, is \<open>cb\<close>.
\<close>

theorem unsubscribe_stops_callbacks:
  assumes "absent cb ts"
    and "\<forall>c \<in> set (before @ after). \<not> resubscribes cb c"
  shows "cb \<notin> fst ` set (snd (tracking_run after
            (snd (subscribeToOrder n cb ts)
               (fst (tracking_run before (fst (subscribeToOrder n cb ts)))))))"
proof -
  let ?ts1 = "fst (subscribeToOrder n cb ts)"
  obtain ts2 inv2 where r1: "tracking_run before ?ts1 = (ts2, inv2)"
    by (cases "tracking_run before ?ts1")
  have unsub: "snd (subscribeToOrder n cb ts) = unsubscribeFromOrder n cb"
    by (simp add: subscribeToOrder_def Let_def)
  obtain ts4 inv4 where r2: "tracking_run after (unsubscribeFromOrder n cb ts2) = (ts4, inv4)"
    by (cases "tracking_run after (unsubscribeFromOrder n cb ts2)")
  have "at_most_once n cb ?ts1"
    using assms(1) by (rule subscribe_at_most_once)
  then have "at_most_once n cb ts2"
    using at_most_once_run [OF r1] assms(2) by simp
  then have "absent cb (unsubscribeFromOrder n cb ts2)"
    by (rule unsubscribe_absent)
  then have "cb \<notin> fst ` set inv4"
    using absent_run [OF r2] assms(2) by simp
  then show ?thesis
    by (simp add: r1 r2 unsub)
qed

lemma tracked_order7_absent: "absent 1 tracked_order7"
  by (simp add: absent_def subscribers_of_def tracked_order7_def initializeOrder_def
      newTrackingSystem_def)

lemma calls_no_resubscribe: "\<forall>c \<in> set (calls_before @ calls_after). \<not> resubscribes 1 c"
  by (simp add: calls_before_def calls_after_def resubscribes_def)

lemma calls_before_invoked:
  "snd (tracking_run calls_before (fst (subscribeToOrder 7 1 tracked_order7))) = [(1, Preparing)]"
  by (simp add: calls_before_def tracked_order7_def initializeOrder_def newTrackingSystem_def
      subscribeToOrder_def updateOrderStatus_def Let_def)

lemma calls_after_invoked:
  "snd (tracking_run calls_after
     (snd (subscribeToOrder 7 1 tracked_order7)
        (fst (tracking_run calls_before (fst (subscribeToOrder 7 1 tracked_order7))))))
   = [(2, Ready), (2, Ready), (2, Completed)]"
  by (simp add: calls_before_def calls_after_def tracked_order7_def initializeOrder_def
      newTrackingSystem_def subscribeToOrder_def unsubscribeFromOrder_def updateOrderStatus_def
      simulateStatusUpdate_def getOrderTracking_def Let_def)

theorem unsubscribe_stops_callbacks_witness:
  "absent 1 tracked_order7
   \<and> snd (tracking_run calls_before (fst (subscribeToOrder 7 1 tracked_order7))) = [(1, Preparing)]
   \<and> snd (tracking_run calls_after
        (snd (subscribeToOrder 7 1 tracked_order7)
           (fst (tracking_run calls_before (fst (subscribeToOrder 7 1 tracked_order7))))))
      = [(2, Ready), (2, Ready), (2, Completed)]
   \<and> 1 \<notin> fst ` set (snd (tracking_run calls_after
        (snd (subscribeToOrder 7 1 tracked_order7)
           (fst (tracking_run calls_before (fst (subscribeToOrder 7 1 tracked_order7)))))))"
  using tracked_order7_absent calls_before_invoked calls_after_invoked
    unsubscribe_stops_callbacks [OF tracked_order7_absent calls_no_resubscribe, of 7]
  by (intro conjI)

section \<open>validateOrderItems\<close>

lemma number_in_range:
  "typeof_number v \<Longrightarrow> truthy v \<Longrightarrow> \<not> num_lt (num_of v) (Fin lo) \<Longrightarrow>
   \<not> num_gt (num_of v) (Fin hi) \<Longrightarrow> \<exists>r. v = JNum (Fin r) \<and> lo \<le> r \<and> r \<le> hi"
proof (cases v)
  case (JNum n)
  assume "truthy v" "\<not> num_lt (num_of v) (Fin lo)" "\<not> num_gt (num_of v) (Fin hi)"
  with JNum show ?thesis by (cases n) (auto simp: num_gt_def)
qed auto

lemma number_positive:
  "typeof_number v \<Longrightarrow> truthy v \<Longrightarrow> \<not> num_le (num_of v) (Fin 0) \<Longrightarrow>
   \<not> num_gt (num_of v) (Fin hi) \<Longrightarrow> \<exists>r. v = JNum (Fin r) \<and> 0 < r \<and> r \<le> hi"
proof (cases v)
  case (JNum n)
  assume "truthy v" "\<not> num_le (num_of v) (Fin 0)" "\<not> num_gt (num_of v) (Fin hi)"
  with JNum show ?thesis by (cases n) (auto simp: num_gt_def)
qed auto

lemma string_short:
  "typeof_string v \<Longrightarrow> \<not> str_length v > n \<Longrightarrow> \<exists>s. v = JStr s \<and> length s \<le> n"
  by (cases v) auto

lemma validate_items_loop_true:
  "validate_items_loop xs = (True, xs') \<Longrightarrow> x \<in> set xs \<Longrightarrow> item_in_range x"
proof (induction xs arbitrary: xs')
  case Nil
  then show ?case by simp
next
  case (Cons item rest)
  from Cons.prems(1) have checks:
    "truthy (item_id item)" "truthy (name item)" "truthy (quantity item)" "truthy (price item)"
    "typeof_number (item_id item)" "\<not> num_lt (num_of (item_id item)) (Fin 1)"
    "\<not> num_gt (num_of (item_id item)) (Fin 1000)"
    "typeof_string (name item)" "\<not> str_length (name item) > 100"
    "typeof_number (quantity item)" "\<not> num_lt (num_of (quantity item)) (Fin 1)"
    "\<not> num_gt (num_of (quantity item)) (Fin 99)"
    "typeof_number (price item)" "\<not> num_le (num_of (price item)) (Fin 0)"
    "\<not> num_gt (num_of (price item)) (Fin 1000)"
    by (simp_all split: if_splits)
  have here: "item_in_range item"
    unfolding item_in_range_def
    using number_in_range [OF checks(5) checks(1) checks(6) checks(7)]
      string_short [OF checks(8) checks(9)]
      number_in_range [OF checks(10) checks(3) checks(11) checks(12)]
      number_positive [OF checks(13) checks(4) checks(14) checks(15)]
    by (intro conjI)
  from Cons.prems(1) checks obtain rest' where "validate_items_loop rest = (True, rest')"
    by (auto simp: Let_def split: prod.splits)
  with Cons.IH Cons.prems(2) here show ?case by auto
qed

text \<open>
  Claim C9. \<open>validateOrderItems\<close> returns \<open>true\<close> only if its argument is an array of
  1 to 20 items, each with a numeric \<open>id\<close> in \<open>[1, 1000]\<close>, a string \<open>name\<close> of at most
  100 code units, a numeric \<open>quantity\<close> in \<open>[1, 99]\<close> and a numeric \<open>price\<close> in
  \<open>(0, 1000]\<close>; it returns \<open>false\<close> for the empty array and for every array of more than
  20 items.
\<close>

theorem validateOrderItems_true_only_if:
  "(fst (validateOrderItems items) \<longrightarrow>
      (\<exists>xs. items = Some xs \<and> 1 \<le> length xs \<and> length xs \<le> 20
         \<and> (\<forall>x \<in> set xs. item_in_range x)))
   \<and> \<not> fst (validateOrderItems (Some []))
   \<and> (length ys > 20 \<longrightarrow> \<not> fst (validateOrderItems (Some ys)))"
proof (intro conjI impI)
  assume ok: "fst (validateOrderItems items)"
  then obtain xs where xs: "items = Some xs"
    by (cases items) (auto simp: validateOrderItems_def)
  from ok xs have len: "1 \<le> length xs" "length xs \<le> 20"
    by (cases xs; auto simp: validateOrderItems_def split: if_splits)+
  from ok xs len obtain xs' where "validate_items_loop xs = (True, xs')"
    by (auto simp: validateOrderItems_def split: if_splits prod.splits)
  then have "\<forall>x \<in> set xs. item_in_range x"
    using validate_items_loop_true by blast
  with xs len show "\<exists>xs. items = Some xs \<and> 1 \<le> length xs \<and> length xs \<le> 20
         \<and> (\<forall>x \<in> set xs. item_in_range x)"
    by blast
next
  show "\<not> fst (validateOrderItems (Some []))"
    by (simp add: validateOrderItems_def)
next
  assume "length ys > 20"
  then show "\<not> fst (validateOrderItems (Some ys))"
    by (simp add: validateOrderItems_def)
qed

lemma montana_item_valid: "fst (validateOrderItems (Some [montana_item]))"
  by (simp add: validateOrderItems_def montana_item_def num_gt_def jsstr_def Let_def)

theorem validateOrderItems_true_only_if_witness:
  "fst (validateOrderItems (Some [montana_item])) \<and> item_in_range montana_item
   \<and> \<not> fst (validateOrderItems (Some (replicate 21 montana_item)))"
proof -
  note inst = validateOrderItems_true_only_if [of "Some [montana_item]" "replicate 21 montana_item"]
  from inst montana_item_valid
  have "\<exists>xs. Some [montana_item] = Some xs \<and> 1 \<le> length xs \<and> length xs \<le> 20
         \<and> (\<forall>x \<in> set xs. item_in_range x)"
    by blast
  then have a: "item_in_range montana_item" by auto
  have "length (replicate 21 montana_item) > 20" by simp
  with inst have b: "\<not> fst (validateOrderItems (Some (replicate 21 montana_item)))"
    by blast
  show ?thesis using montana_item_valid a b by (intro conjI)
qed

section \<open>Encryption round trip\<close>

lemma b64_index_char_all: "\<forall>i \<in> set [0..<64]. b64_index (b64_char i) = Some i"
  by code_simp

lemma b64_index_char: "i < 64 \<Longrightarrow> b64_index (b64_char i) = Some i"
  using b64_index_char_all by simp

lemma b64_char_not_special_all:
  "\<forall>i \<in> set [0..<64]. b64_char i \<notin> {9, 10, 12, 13, 32, 61}"
  by code_simp

lemma b64_char_not_special: "i < 64 \<Longrightarrow> b64_char i \<notin> {9, 10, 12, 13, 32, 61}"
  using b64_char_not_special_all by simp

lemma div16_less: "(b::nat) < 256 \<Longrightarrow> b div 16 < 16"
  by simp

lemma div64_less: "(c::nat) < 256 \<Longrightarrow> c div 64 < 4"
  by simp

lemma sextet_arith:
  fixes a b c :: nat
  assumes "a < 256" "b < 256" "c < 256"
  shows "(a div 4) * 4 + ((a mod 4) * 16 + b div 16) div 16 = a"
    and "(((a mod 4) * 16 + b div 16) mod 16) * 16 + ((b mod 16) * 4 + c div 64) div 4 = b"
    and "(((b mod 16) * 4 + c div 64) mod 4) * 64 + c mod 64 = c"
    and "(((a mod 4) * 16 + b div 16) mod 16) * 16 + ((b mod 16) * 4) div 4 = b"
    and "(a div 4) * 4 + ((a mod 4) * 16) div 16 = a"
proof -
  show "(a div 4) * 4 + ((a mod 4) * 16 + b div 16) div 16 = a"
    using assms by simp
  show "(((a mod 4) * 16 + b div 16) mod 16) * 16 + ((b mod 16) * 4 + c div 64) div 4 = b"
    using assms div16_less [of b] by (simp add: div_mult2_eq [symmetric])
  show "(((b mod 16) * 4 + c div 64) mod 4) * 64 + c mod 64 = c"
    using assms div64_less [of c] by simp
  show "(((a mod 4) * 16 + b div 16) mod 16) * 16 + ((b mod 16) * 4) div 4 = b"
    using assms div16_less [of b] by simp
  show "(a div 4) * 4 + ((a mod 4) * 16) div 16 = a"
    using assms by simp
qed

lemma sextet_bounds:
  fixes a b c :: nat
  assumes "a < 256" "b < 256" "c < 256"
  shows "a div 4 < 64" and "(a mod 4) * 16 + b div 16 < 64" and "(b mod 16) * 4 + c div 64 < 64"
    and "c mod 64 < 64" and "(b mod 16) * 4 < 64" and "(a mod 4) * 16 < 64"
proof -
  have m4: "a mod 4 < 4" and m16: "b mod 16 < 16" by simp_all
  show "a div 4 < 64" using assms by simp
  show "(a mod 4) * 16 + b div 16 < 64" using m4 div16_less [OF assms(2)] by linarith
  show "(b mod 16) * 4 + c div 64 < 64" using m16 div64_less [OF assms(3)] by linarith
  show "c mod 64 < 64" "(b mod 16) * 4 < 64" "(a mod 4) * 16 < 64" by simp_all
qed

lemma dec_enc_sextets:
  "\<forall>x \<in> set bs. x < 256 \<Longrightarrow> dec_sextets (enc_sextets bs) = bs"
proof (induction bs rule: enc_sextets.induct)
  case (1 a b c rest)
  then have lt: "a < 256" "b < 256" "c < 256" and rest: "\<forall>x \<in> set rest. x < 256"
    by simp_all
  have "dec_sextets (enc_sextets (a # b # c # rest)) =
        [(a div 4) * 4 + ((a mod 4) * 16 + b div 16) div 16,
         (((a mod 4) * 16 + b div 16) mod 16) * 16 + ((b mod 16) * 4 + c div 64) div 4,
         (((b mod 16) * 4 + c div 64) mod 4) * 64 + c mod 64] @ dec_sextets (enc_sextets rest)"
    by (simp only: enc_sextets.simps dec_sextets.simps append_Cons append_Nil)
  also have "\<dots> = [a, b, c] @ rest"
    by (simp only: sextet_arith [OF lt] "1.IH" [OF rest])
  finally show ?case by simp
next
  case (2 a b)
  then have lt: "a < 256" "b < 256" by simp_all
  have "dec_sextets (enc_sextets [a, b]) =
        [(a div 4) * 4 + ((a mod 4) * 16 + b div 16) div 16,
         (((a mod 4) * 16 + b div 16) mod 16) * 16 + ((b mod 16) * 4) div 4]"
    by (simp only: enc_sextets.simps dec_sextets.simps)
  also have "\<dots> = [a, b]"
    by (simp only: sextet_arith [OF lt lt(2)])
  finally show ?case .
next
  case (3 a)
  then have lt: "a < 256" by simp
  have "dec_sextets (enc_sextets [a]) = [(a div 4) * 4 + ((a mod 4) * 16) div 16]"
    by (simp only: enc_sextets.simps dec_sextets.simps)
  also have "\<dots> = [a]"
    by (simp only: sextet_arith [OF lt lt lt])
  finally show ?case .
next
  case 4
  then show ?case by simp
qed

lemma enc_sextets_bound:
  "\<forall>x \<in> set bs. x < 256 \<Longrightarrow> y \<in> set (enc_sextets bs) \<Longrightarrow> y < 64"
proof (induction bs rule: enc_sextets.induct)
  case (1 a b c rest)
  then have lt: "a < 256" "b < 256" "c < 256" and rest: "\<forall>x \<in> set rest. x < 256"
    by simp_all
  from "1.prems"(2) have "y \<in> {a div 4, (a mod 4) * 16 + b div 16, (b mod 16) * 4 + c div 64, c mod 64}
      \<or> y \<in> set (enc_sextets rest)"
    by (simp only: enc_sextets.simps set_append set_simps Un_iff)
  then show ?case
    using sextet_bounds [OF lt] "1.IH" [OF rest] by blast
next
  case (2 a b)
  then have lt: "a < 256" "b < 256" by simp_all
  from "2.prems"(2) have "y \<in> {a div 4, (a mod 4) * 16 + b div 16, (b mod 16) * 4}"
    by (simp only: enc_sextets.simps set_simps) 
  then show ?case
    using sextet_bounds [OF lt lt(2)] by blast
next
  case (3 a)
  then have lt: "a < 256" by simp
  from "3.prems"(2) have "y \<in> {a div 4, (a mod 4) * 16}"
    by (simp only: enc_sextets.simps set_simps)
  then show ?case
    using sextet_bounds [OF lt lt lt] by blast
next
  case 4
  then show ?case by simp
qed

lemma length_enc_sextets:
  "length (enc_sextets bs) mod 4 = (if length bs mod 3 = 0 then 0 else length bs mod 3 + 1)"
proof (induction bs rule: enc_sextets.induct)
  case (1 a b c rest)
  have "length (enc_sextets (a # b # c # rest)) = length (enc_sextets rest) + 4"
    by simp
  then have l: "length (enc_sextets (a # b # c # rest)) mod 4 = length (enc_sextets rest) mod 4"
    by (simp only: mod_add_self2)
  have "length (a # b # c # rest) = length rest + 3" by simp
  then have r: "length (a # b # c # rest) mod 3 = length rest mod 3"
    by (simp only: mod_add_self2)
  show ?case
    unfolding l r by (rule "1.IH")
qed simp_all

lemma suffix_pad_iff: "suffix [61::16 word] xs \<longleftrightarrow> xs \<noteq> [] \<and> last xs = 61"
  by (cases xs rule: rev_cases) (auto simp: suffix_def)

lemma strip_padding_encoded:
  assumes no_pad: "61 \<notin> set xs"
    and len: "length xs mod 4 = (if m = 0 then 0 else m + 1)"
    and m: "m < 3"
  shows "strip_padding (xs @ replicate ((3 - m) mod 3) 61) = xs"
proof -
  consider "m = 0" | "m = 1" | "m = 2" using m by linarith
  then show ?thesis
  proof cases
    case 1
    have "\<not> suffix [61] xs"
    proof
      assume "suffix [61] xs"
      then have "xs \<noteq> []" and "last xs = 61" by (simp_all add: suffix_pad_iff)
      then have "61 \<in> set xs" using last_in_set [of xs] by simp
      with no_pad show False by simp
    qed
    moreover have "\<not> suffix [61, 61] xs"
      using no_pad by (auto simp: suffix_def)
    ultimately show ?thesis
      using 1 by (simp add: strip_padding_def)
  next
    case 2
    have l: "length (xs @ [61, 61]) mod 4 = 0"
      using len 2 by (simp add: mod_Suc)
    have s: "suffix [61, 61] (xs @ [61, 61])"
      by (simp add: suffix_def)
    have "strip_padding (xs @ [61, 61]) = xs"
      unfolding strip_padding_def using l s by simp
    moreover have "replicate ((3 - m) mod 3) (61::16 word) = [61, 61]"
      using 2 by (simp add: numeral_2_eq_2)
    ultimately show ?thesis by simp
  next
    case 3
    from len 3 have ne: "xs \<noteq> []" by auto
    have l: "length (xs @ [61]) mod 4 = 0"
      using len 3 by (simp add: mod_Suc)
    have s1: "\<not> suffix [61, 61] (xs @ [61])"
    proof
      assume "suffix [61, 61] (xs @ [61])"
      then obtain zs where "xs @ [61] = zs @ [61, 61]" by (auto simp: suffix_def)
      then have "xs = zs @ [61]" by (metis append.assoc append_Cons append_Nil butlast_snoc)
      with no_pad show False by simp
    qed
    have s2: "suffix [61] (xs @ [61])" by (simp add: suffix_def)
    have "strip_padding (xs @ [61]) = xs"
      unfolding strip_padding_def using l s1 s2 by simp
    moreover have "replicate ((3 - m) mod 3) (61::16 word) = [61]"
      using 3 by simp
    ultimately show ?thesis by simp
  qed
qed

lemma atob_btoa:
  assumes latin1: "\<forall>c \<in> set s. unat c < 256"
  shows "\<exists>e. btoa s = Some e \<and> atob e = Some s"
proof -
  let ?bytes = "map unat s"
  let ?sx = "enc_sextets ?bytes"
  let ?xs = "map b64_char ?sx"
  let ?m = "length s mod 3"
  let ?e = "?xs @ replicate ((3 - ?m) mod 3) 61"
  have enc: "btoa s = Some ?e"
    using latin1 by (auto simp: btoa_def)
  have bytes: "\<forall>x \<in> set ?bytes. x < 256"
    using latin1 by simp
  have sx64: "\<And>y. y \<in> set ?sx \<Longrightarrow> y < 64"
    using enc_sextets_bound [OF bytes] by blast
  have xs_plain: "\<And>c. c \<in> set ?xs \<Longrightarrow> c \<notin> {9, 10, 12, 13, 32, 61}"
    using sx64 b64_char_not_special by auto
  have no_ws: "filter (\<lambda>c. c \<notin> {9, 10, 12, 13, 32}) ?e = ?e"
  proof (rule filter_True, rule ballI)
    fix c assume "c \<in> set ?e"
    then have "c \<in> set ?xs \<or> c = 61" by auto
    then show "c \<notin> {9, 10, 12, 13, 32}"
      using xs_plain by auto
  qed
  have no_pad: "61 \<notin> set ?xs"
    using xs_plain by blast
  have len: "length ?xs mod 4 = (if ?m = 0 then 0 else ?m + 1)"
    using length_enc_sextets [of ?bytes] by simp
  have strip: "strip_padding ?e = ?xs"
    using no_pad len by (rule strip_padding_encoded) simp
  have len1: "length ?xs mod 4 \<noteq> 1"
    unfolding len by simp
  have idx: "\<And>c. c \<in> set ?xs \<Longrightarrow> b64_index c \<noteq> None"
    using sx64 b64_index_char by auto
  have decoded: "map (\<lambda>c. the (b64_index c)) ?xs = ?sx"
  proof -
    have "map (\<lambda>c. the (b64_index c)) ?xs = map (\<lambda>i. the (b64_index (b64_char i))) ?sx"
      by (simp add: comp_def)
    also have "\<dots> = map (\<lambda>i. i) ?sx"
      by (rule map_cong) (simp_all add: sx64 b64_index_char)
    finally show ?thesis by simp
  qed
  have "atob ?e = Some (map of_nat (dec_sextets ?sx))"
    unfolding atob_def no_ws strip Let_def using len1 idx decoded by auto
  also have "dec_sextets ?sx = ?bytes"
    using bytes by (rule dec_enc_sextets)
  also have "map of_nat ?bytes = s"
    by (simp add: comp_def)
  finally show ?thesis
    using enc by blast
qed

lemma number_to_string_nonempty: "number_to_string radix n \<noteq> []"
  by (subst number_to_string.simps) simp

lemma simpleHash_nonempty: "simpleHash str \<noteq> []"
  by (simp add: simpleHash_def Let_def number_to_string_nonempty)

lemma js_rem_wrap:
  "(if js_rem x 256 < 0 then js_rem x 256 + 256 else js_rem x 256) = x mod 256"
proof (cases "x < 0")
  case False
  have "0 \<le> x mod 256" by simp
  with False show ?thesis by (simp add: js_rem_def sgn_if not_less)
next
  case True
  then have "js_rem x 256 = - ((- x) mod 256)"
    by (simp add: js_rem_def sgn_if)
  also have "(- x) mod 256 = (if x mod 256 = 0 then 0 else 256 - x mod 256)"
    by (rule zmod_zminus1_eq_if)
  finally show ?thesis
    by auto
qed

lemma unat_of_nat16: "n < 65536 \<Longrightarrow> unat (of_nat n :: 16 word) = n"
  by (simp add: unat_of_nat)

lemma decrypt_char:
  assumes "d < 256"
  shows "nat ((int ((d + k) mod 256) - int k) mod 256) = d"
proof -
  have "(int ((d + k) mod 256) - int k) mod 256 = ((int d + int k) mod 256 - int k) mod 256"
    by (simp add: zmod_int)
  also have "\<dots> = (int d + int k - int k) mod 256"
    by (rule mod_diff_left_eq)
  also have "\<dots> = int d"
    using assms by simp
  finally show ?thesis by simp
qed

lemma length_encrypt_round: "length (encrypt_round roundKey s) = length s"
  by (simp add: encrypt_round_def)

lemma length_decrypt_round: "length (decrypt_round roundKey s) = length s"
  by (simp add: decrypt_round_def)

lemma encrypt_round_nth:
  "i < length s \<Longrightarrow> charCodeAt roundKey (i mod length roundKey) = Some k \<Longrightarrow>
   encrypt_round roundKey s ! i = of_nat ((unat (s ! i) + k) mod 256)"
  by (simp add: encrypt_round_def nth_enumerate_eq)

lemma decrypt_round_nth:
  "i < length s \<Longrightarrow> charCodeAt roundKey (i mod length roundKey) = Some k \<Longrightarrow>
   decrypt_round roundKey s ! i =
     of_nat (nat (if js_rem (int (unat (s ! i)) - int k) 256 < 0
                  then js_rem (int (unat (s ! i)) - int k) 256 + 256
                  else js_rem (int (unat (s ! i)) - int k) 256))"
  by (simp add: decrypt_round_def nth_enumerate_eq Let_def)

lemma charCodeAt_key:
  "roundKey \<noteq> [] \<Longrightarrow> \<exists>k. charCodeAt roundKey (i mod length roundKey) = Some k"
  by (simp add: charCodeAt_def)

lemma encrypt_round_latin1:
  assumes "roundKey \<noteq> []"
  shows "\<forall>c \<in> set (encrypt_round roundKey s). unat c < 256"
proof
  fix c assume "c \<in> set (encrypt_round roundKey s)"
  then obtain i where i: "i < length s" and c: "c = encrypt_round roundKey s ! i"
    by (auto simp: in_set_conv_nth length_encrypt_round)
  obtain k where k: "charCodeAt roundKey (i mod length roundKey) = Some k"
    using charCodeAt_key [OF assms] by blast
  have lt: "(unat (s ! i) + k) mod 256 < 65536"
    by (rule less_trans [of _ 256]) simp_all
  have "unat c = (unat (s ! i) + k) mod 256"
    unfolding c encrypt_round_nth [OF i k] by (rule unat_of_nat16 [OF lt])
  then show "unat c < 256" by simp
qed

lemma decrypt_encrypt_round:
  assumes key: "roundKey \<noteq> []" and latin1: "\<forall>c \<in> set s. unat c < 256"
  shows "decrypt_round roundKey (encrypt_round roundKey s) = s"
proof (rule nth_equalityI)
  show "length (decrypt_round roundKey (encrypt_round roundKey s)) = length s"
    by (simp add: length_decrypt_round length_encrypt_round)
next
  fix i assume "i < length (decrypt_round roundKey (encrypt_round roundKey s))"
  then have i: "i < length s"
    by (simp add: length_decrypt_round length_encrypt_round)
  then have i': "i < length (encrypt_round roundKey s)"
    by (simp add: length_encrypt_round)
  obtain k where k: "charCodeAt roundKey (i mod length roundKey) = Some k"
    using charCodeAt_key [OF key] by blast
  let ?d = "unat (s ! i)"
  have d: "?d < 256" using latin1 i by simp
  have lt: "(?d + k) mod 256 < 65536"
    by (rule less_trans [of _ 256]) simp_all
  have u: "unat (encrypt_round roundKey s ! i) = (?d + k) mod 256"
    unfolding encrypt_round_nth [OF i k] by (rule unat_of_nat16 [OF lt])
  have "decrypt_round roundKey (encrypt_round roundKey s) ! i =
        of_nat (nat ((int ((?d + k) mod 256) - int k) mod 256))"
    unfolding decrypt_round_nth [OF i' k] u js_rem_wrap ..
  also have "\<dots> = of_nat ?d"
    unfolding decrypt_char [OF d] ..
  finally show "decrypt_round roundKey (encrypt_round roundKey s) ! i = s ! i"
    by simp
qed

text \<open>
  Claim C10. For every key and every text whose code units are all below 256, and in
  either environment branch (the same one for both calls), \<open>encryptData\<close> returns a
  string and \<open>decryptData\<close> of that string with the same key is the text.
\<close>

theorem decrypt_encrypt_roundtrip:
  assumes "\<forall>c \<in> set data. unat c < 256"
  shows "\<exists>e. encryptData crypto data key = Some e \<and> decryptData crypto e key = data"
proof (cases crypto)
  case False
  from atob_btoa [OF assms] obtain e where e: "btoa data = Some e" "atob e = Some data"
    by blast
  with False show ?thesis
    by (simp add: encryptData_def decryptData_def)
next
  case True
  let ?k = "\<lambda>rnd. roundKey_of (simpleHash key) rnd"
  let ?e1 = "encrypt_round (?k 0) data"
  let ?e2 = "encrypt_round (?k 1) ?e1"
  let ?e3 = "encrypt_round (?k 2) ?e2"
  have keys: "?k 0 \<noteq> []" "?k 1 \<noteq> []" "?k 2 \<noteq> []"
    by (simp_all add: roundKey_of_def simpleHash_nonempty)
  have l1: "\<forall>c \<in> set ?e1. unat c < 256" using keys(1) by (rule encrypt_round_latin1)
  have l2: "\<forall>c \<in> set ?e2. unat c < 256" using keys(2) by (rule encrypt_round_latin1)
  have l3: "\<forall>c \<in> set ?e3. unat c < 256" using keys(3) by (rule encrypt_round_latin1)
  from atob_btoa [OF l3] obtain e where e: "btoa ?e3 = Some e" "atob e = Some ?e3"
    by blast
  have enc: "encryptData crypto data key = Some e"
    using True e(1) by (simp add: encryptData_def Let_def)
  have "decryptData crypto e key = decrypt_round (?k 0) (decrypt_round (?k 1) (decrypt_round (?k 2) ?e3))"
    using True e(2) by (simp add: decryptData_def Let_def)
  also have "decrypt_round (?k 2) ?e3 = ?e2"
    using keys(3) l2 by (rule decrypt_encrypt_round)
  also have "decrypt_round (?k 1) ?e2 = ?e1"
    using keys(2) l1 by (rule decrypt_encrypt_round)
  also have "decrypt_round (?k 0) ?e1 = data"
    using keys(1) assms by (rule decrypt_encrypt_round)
  finally show ?thesis
    using enc by blast
qed

lemma sample_data_latin1: "\<forall>c \<in> set sample_data. unat c < 256"
  by (simp add: sample_data_def jsstr_def)

lemma sample_round_keys:
  "roundKey_of (simpleHash sample_key) 0 = jsstr ''tgvcd5''"
  "roundKey_of (simpleHash sample_key) (Suc 0) = jsstr ''tgvce5''"
  "roundKey_of (simpleHash sample_key) 2 = jsstr ''tgvcf5''"
  by (simp_all add: roundKey_of_def simpleHash_def hash_step_def sample_key_def jsstr_def
      number_to_string.simps digit_char_def)

lemma sample_rounds:
  "encrypt_round (jsstr ''tgvcf5'') (encrypt_round (jsstr ''tgvce5'')
     (encrypt_round (jsstr ''tgvcd5'') sample_data)) = [203, 167, 198, 142, 161, 191, 147]"
  by code_simp

lemma sample_btoa: "btoa [203, 167, 198, 142, 161, 191, 147] = Some (jsstr ''y6fGjqG/kw=='')"
  by code_simp

lemma sample_encrypted:
  "encryptData True sample_data sample_key = Some (jsstr ''y6fGjqG/kw=='')"
  by (simp add: encryptData_def Let_def sample_round_keys sample_rounds sample_btoa)

theorem decrypt_encrypt_roundtrip_witness:
  "encryptData True sample_data sample_key = Some (jsstr ''y6fGjqG/kw=='')
   \<and> decryptData True (jsstr ''y6fGjqG/kw=='') sample_key = sample_data"
proof -
  from decrypt_encrypt_roundtrip [OF sample_data_latin1, of True sample_key]
  obtain e where "encryptData True sample_data sample_key = Some e"
    and d: "decryptData True e sample_key = sample_data"
    by blast
  with sample_encrypted have "e = jsstr ''y6fGjqG/kw==''" by (simp only: option.inject)
  with d have "decryptData True (jsstr ''y6fGjqG/kw=='') sample_key = sample_data"
    by (simp only:)
  with sample_encrypted show ?thesis by (rule conjI)
qed

section \<open>Splitting a display name\<close>

lemma includes_str_append_right: "includes_str s pat \<Longrightarrow> includes_str (b @ s) pat"
proof (induction b)
  case Nil
  then show ?case by simp
next
  case (Cons c cs)
  then show ?case by simp
qed

lemma includes_str_self: "includes_str pat pat"
  by (cases pat) simp_all

lemma includes_str_suffix: "includes_str (b @ pat) pat"
  by (rule includes_str_append_right) (rule includes_str_self)

lemma prefix_straddle:
  assumes "prefix pat (b @ s)" and "\<not> prefix pat b"
  obtains us where "pat = b @ us" and "us \<noteq> []" and "prefix us s"
proof -
  from assms obtain us where us: "pat = b @ us" "prefix us s"
    by (auto simp: prefix_append)
  with assms(2) have "us \<noteq> []" by auto
  with us that show ?thesis by blast
qed

lemma no_border:
  assumes "hd pat \<notin> set (tl pat)" and "b \<noteq> []" and "\<not> prefix pat b"
  shows "\<not> prefix pat (b @ pat)"
proof
  assume "prefix pat (b @ pat)"
  then obtain us where us: "pat = b @ us" "us \<noteq> []" "prefix us pat"
    using assms(3) by (rule prefix_straddle)
  from us(2,3) have "hd us = hd pat"
    by (cases us; cases pat) auto
  moreover from us(1) assms(2) have "set us \<subseteq> set (tl pat)"
    by (cases b) auto
  ultimately have "hd pat \<in> set (tl pat)"
    using us(2) hd_in_set [of us] by auto
  with assms(1) show False by simp
qed

lemma replace_first_suffix:
  assumes "pat \<noteq> []" and "hd pat \<notin> set (tl pat)" and "\<not> includes_str b pat"
  shows "replace_first (b @ pat) pat [] = b"
  using assms(3)
proof (induction b)
  case Nil
  with assms(1) show ?case by (cases pat) simp_all
next
  case (Cons c cs)
  then have np: "\<not> prefix pat (c # cs)" and rest: "\<not> includes_str cs pat"
    by simp_all
  have "\<not> prefix pat ((c # cs) @ pat)"
    using assms(2) _ np by (rule no_border) simp
  then show ?case
    using Cons.IH [OF rest] by simp
qed

lemma includes_str_append_cases:
  assumes "s \<noteq> []" and "hd s \<notin> set pat" and "includes_str (b @ s) pat"
  shows "includes_str b pat \<or> includes_str s pat"
  using assms(3)
proof (induction b)
  case Nil
  then show ?case by simp
next
  case (Cons c cs)
  show ?case
  proof (cases "prefix pat ((c # cs) @ s)")
    case True
    show ?thesis
    proof (cases "prefix pat (c # cs)")
      case True
      then show ?thesis by simp
    next
      case False
      with \<open>prefix pat ((c # cs) @ s)\<close> obtain us
        where us: "pat = (c # cs) @ us" "us \<noteq> []" "prefix us s"
        by (rule prefix_straddle)
      from us(2,3) assms(1) have "hd us = hd s"
        by (cases us; cases s) auto
      with us(1,2) have "hd s \<in> set pat"
        using hd_in_set [of us] by auto
      with assms(2) show ?thesis by simp
    qed
  next
    case False
    with Cons.prems have "includes_str (cs @ s) pat" by simp
    from Cons.IH [OF this] show ?thesis by auto
  qed
qed

lemma split_name_regular:
  assumes "\<not> includes_str base (jsstr '' Regular'')"
  shows "split_name (base @ jsstr '' Regular'') = (base, jsstr ''R'')"
proof -
  have "includes_str (jsstr '' Regular'') (jsstr ''Regular'')"
    by (simp add: jsstr_def)
  then have inc: "includes_str (base @ jsstr '' Regular'') (jsstr ''Regular'')"
    by (rule includes_str_append_right)
  have "replace_first (base @ jsstr '' Regular'') (jsstr '' Regular'') [] = base"
    using _ _ assms by (rule replace_first_suffix) (simp_all add: jsstr_def)
  with inc show ?thesis by (simp add: split_name_def)
qed

lemma split_name_large:
  assumes "\<not> includes_str base (jsstr ''Regular'')" and "\<not> includes_str base (jsstr '' Large'')"
  shows "split_name (base @ jsstr '' Large'') = (base, jsstr ''L'')"
proof -
  have "\<not> includes_str (jsstr '' Large'') (jsstr ''Regular'')"
    by (simp add: jsstr_def)
  with assms(1) have no_reg: "\<not> includes_str (base @ jsstr '' Large'') (jsstr ''Regular'')"
    using includes_str_append_cases [of "jsstr '' Large''" "jsstr ''Regular''" base]
    by (auto simp: jsstr_def)
  have "includes_str (jsstr '' Large'') (jsstr ''Large'')"
    by (simp add: jsstr_def)
  then have inc: "includes_str (base @ jsstr '' Large'') (jsstr ''Large'')"
    by (rule includes_str_append_right)
  have "replace_first (base @ jsstr '' Large'') (jsstr '' Large'') [] = base"
    using _ _ assms(2) by (rule replace_first_suffix) (simp_all add: jsstr_def)
  with no_reg inc show ?thesis by (simp add: split_name_def)
qed

lemma order_item_of_name:
  assumes "name item = JStr nm" and "nm \<noteq> []"
  shows "\<exists>row. order_item_of expn n item = Some row
           \<and> oi_base_name row = JStr (fst (split_name nm)) \<and> oi_size_code row = snd (split_name nm)"
  using assms by (simp add: order_item_of_def js_or_def Let_def split: prod.splits)

lemma montana_order_item:
  "order_item_of (\<lambda>r. []) 7 montana_item = Some sample_order_item"
  by (simp add: order_item_of_def montana_item_def sample_order_item_def js_or_def Let_def
      split_name_def truncate_rat_def jsstr_def)

text \<open>
  Claim C5, as the code has it. The name is tested for the substrings \<open>Regular\<close> and
  \<open>Large\<close> anywhere in it, and the first occurrence of \<open>' Regular'\<close> (or \<open>' Large'\<close>) is
  removed. So: \<open><Base> Regular\<close> yields base name \<open><Base>\<close> and size \<open>R\<close> when \<open><Base>\<close>
  does not itself contain \<open>' Regular'\<close>; \<open><Base> Large\<close> yields \<open><Base>\<close> and \<open>L\<close> when
  \<open><Base>\<close> contains neither \<open>Regular\<close> nor \<open>' Large'\<close>; a name that contains neither
  \<open>Regular\<close> nor \<open>Large\<close> is kept whole, with the empty size code. An order item whose
  \<open>name\<close> is a non-empty string gets the two parts of its name as \<open>base_name\<close> and
  \<open>size_code\<close>.
\<close>

theorem split_name_convention:
  "(\<not> includes_str base (jsstr '' Regular'') \<longrightarrow>
      split_name (base @ jsstr '' Regular'') = (base, jsstr ''R''))
   \<and> (\<not> includes_str base (jsstr ''Regular'') \<and> \<not> includes_str base (jsstr '' Large'') \<longrightarrow>
      split_name (base @ jsstr '' Large'') = (base, jsstr ''L''))
   \<and> (\<not> includes_str nm (jsstr ''Regular'') \<and> \<not> includes_str nm (jsstr ''Large'') \<longrightarrow>
      split_name nm = (nm, []))
   \<and> (name item = JStr nm \<and> nm \<noteq> [] \<longrightarrow>
      (\<exists>row. order_item_of expn n item = Some row
         \<and> oi_base_name row = JStr (fst (split_name nm)) \<and> oi_size_code row = snd (split_name nm)))"
proof (intro conjI impI)
  assume "\<not> includes_str base (jsstr '' Regular'')"
  then show "split_name (base @ jsstr '' Regular'') = (base, jsstr ''R'')"
    by (rule split_name_regular)
next
  assume "\<not> includes_str base (jsstr ''Regular'') \<and> \<not> includes_str base (jsstr '' Large'')"
  then show "split_name (base @ jsstr '' Large'') = (base, jsstr ''L'')"
    using split_name_large by blast
next
  assume "\<not> includes_str nm (jsstr ''Regular'') \<and> \<not> includes_str nm (jsstr ''Large'')"
  then show "split_name nm = (nm, [])"
    by (simp add: split_name_def)
next
  assume "name item = JStr nm \<and> nm \<noteq> []"
  then show "\<exists>row. order_item_of expn n item = Some row
         \<and> oi_base_name row = JStr (fst (split_name nm)) \<and> oi_size_code row = snd (split_name nm)"
    using order_item_of_name by blast
qed

lemma montana_base_plain:
  "\<not> includes_str (jsstr ''Montana BBQ Hamburger'') (jsstr '' Regular'')"
  "\<not> includes_str (jsstr ''Montana BBQ Hamburger'') (jsstr ''Regular'')"
  "\<not> includes_str (jsstr ''Montana BBQ Hamburger'') (jsstr '' Large'')"
  "\<not> includes_str (jsstr ''Classic Burger'') (jsstr ''Regular'')"
  "\<not> includes_str (jsstr ''Classic Burger'') (jsstr ''Large'')"
  by (simp_all add: jsstr_def)

theorem split_name_convention_witness:
  "split_name (jsstr ''Montana BBQ Hamburger'' @ jsstr '' Regular'')
      = (jsstr ''Montana BBQ Hamburger'', jsstr ''R'')
   \<and> split_name (jsstr ''Montana BBQ Hamburger'' @ jsstr '' Large'')
      = (jsstr ''Montana BBQ Hamburger'', jsstr ''L'')
   \<and> split_name (jsstr ''Classic Burger'') = (jsstr ''Classic Burger'', [])
   \<and> order_item_of (\<lambda>r. []) 7 montana_item = Some sample_order_item"
proof -
  note inst = split_name_convention [of "jsstr ''Montana BBQ Hamburger''" "jsstr ''Classic Burger''"
      montana_item "\<lambda>r. []" 7]
  from inst montana_base_plain(1)
  have a: "split_name (jsstr ''Montana BBQ Hamburger'' @ jsstr '' Regular'')
      = (jsstr ''Montana BBQ Hamburger'', jsstr ''R'')"
    by blast
  from inst montana_base_plain(2,3)
  have b: "split_name (jsstr ''Montana BBQ Hamburger'' @ jsstr '' Large'')
      = (jsstr ''Montana BBQ Hamburger'', jsstr ''L'')"
    by blast
  from inst montana_base_plain(4,5)
  have c: "split_name (jsstr ''Classic Burger'') = (jsstr ''Classic Burger'', [])"
    by blast
  show ?thesis
    using a b c montana_order_item by (intro conjI)
qed

text \<open>
  The claim as it was stated fails where the words occur elsewhere in the name:
  \<open>Regular Fries Large\<close> has the suffix \<open>' Large'\<close>, yet it is kept whole with size \<open>R\<close>;
  \<open>Largemouth Bass\<close> has neither suffix, yet its size code is \<open>L\<close>.
\<close>

theorem split_name_suffix_counterexample:
  "split_name (jsstr ''Regular Fries'' @ jsstr '' Large'') = (jsstr ''Regular Fries Large'', jsstr ''R'')
   \<and> split_name (jsstr ''Regular Fries'' @ jsstr '' Large'') \<noteq> (jsstr ''Regular Fries'', jsstr ''L'')
   \<and> split_name (jsstr ''Largemouth Bass'') = (jsstr ''Largemouth Bass'', jsstr ''L'')
   \<and> split_name (jsstr ''Largemouth Bass'') \<noteq> (jsstr ''Largemouth Bass'', [])"
  by (simp add: split_name_def jsstr_def)

section \<open>Order placement\<close>

lemma orders_POST_Success:
  assumes "orders_POST env body d = (Success order, d')"
  obtains b gen its rows where "body = Some b" and "supabase env" and "order_insert env = Inr gen"
    and "order = \<lparr>row_id = gen_row_id gen, order_number = gen_order_number gen,
                   verification_number = verificationNumber_of (random env),
                   total_amount = js_parseFloat (body_totalAmount b),
                   status = jsstr ''pending'', created_at = gen_created_at gen,
                   updated_at = None, completed_at = None\<rparr>"
    and "body_items b = Some its"
    and "map_items (order_item_of (exp_notation env) (gen_order_number gen)) its = Some rows"
    and "items_insert_error env = None"
    and "d' = d\<lparr>orders := orders d @ [order], order_items := order_items d @ rows\<rparr>"
proof -
  from assms have sb: "supabase env"
    by (auto simp: orders_POST_def split: if_splits)
  from assms sb obtain b where b: "body = Some b"
    by (cases body) (auto simp: orders_POST_def)
  from assms sb b obtain gen where gen: "order_insert env = Inr gen"
    by (cases "order_insert env") (auto simp: orders_POST_def Let_def)
  from assms sb b gen obtain its where its: "body_items b = Some its"
    by (cases "body_items b") (auto simp: orders_POST_def Let_def)
  from assms sb b gen its obtain rows
    where rows: "map_items (order_item_of (exp_notation env) (gen_order_number gen)) its = Some rows"
    by (cases "map_items (order_item_of (exp_notation env) (gen_order_number gen)) its")
       (auto simp: orders_POST_def Let_def)
  from assms sb b gen its rows have err: "items_insert_error env = None"
    by (cases "items_insert_error env") (auto simp: orders_POST_def Let_def)
  from assms sb b gen its rows err
  have "order = \<lparr>row_id = gen_row_id gen, order_number = gen_order_number gen,
                   verification_number = verificationNumber_of (random env),
                   total_amount = js_parseFloat (body_totalAmount b),
                   status = jsstr ''pending'', created_at = gen_created_at gen,
                   updated_at = None, completed_at = None\<rparr>"
    and "d' = d\<lparr>orders := orders d @ [order], order_items := order_items d @ rows\<rparr>"
    by (auto simp: orders_POST_def Let_def)
  with sb b gen its rows err that show ?thesis by blast
qed

lemma orders_POST_insert_fails:
  assumes "order_insert env = Inl message"
  shows "snd (orders_POST env body d) = d" and "\<exists>code msg. fst (orders_POST env body d) = Failure code msg"
  using assms by (auto simp: orders_POST_def Let_def split: option.splits)

lemma orders_POST_ignores_status:
  "orders_POST env (Some (b\<lparr>body_status := s\<rparr>)) d = orders_POST env (Some b) d"
  by (cases "order_insert env") (simp_all add: orders_POST_def Let_def)

text \<open>
  Claim C3. A request that \<open>POST /api/orders\<close> accepts (it answers with the order) has
  added exactly one row to \<open>orders\<close>, the order it answers with; the status of that row is
  \<open>pending\<close> and its total is \<open>parseFloat\<close> of the \<open>totalAmount\<close> of the body. The answer
  and the store do not depend on a \<open>status\<close> field of the body. When the insert of the
  order row fails, the answer is an error and the store is as before: no order row and no
  order-item row is added.
\<close>

theorem orders_POST_accepted:
  "(orders_POST env body d = (Success order, d') \<longrightarrow>
      (\<exists>b. body = Some b \<and> orders d' = orders d @ [order] \<and> status order = jsstr ''pending''
           \<and> total_amount order = js_parseFloat (body_totalAmount b)))
   \<and> orders_POST env (Some (b0\<lparr>body_status := s\<rparr>)) d = orders_POST env (Some b0) d
   \<and> (order_insert env = Inl message \<longrightarrow>
        snd (orders_POST env body d) = d
        \<and> (\<exists>code msg. fst (orders_POST env body d) = Failure code msg))"
proof (intro conjI impI)
  assume "orders_POST env body d = (Success order, d')"
  then show "\<exists>b. body = Some b \<and> orders d' = orders d @ [order] \<and> status order = jsstr ''pending''
           \<and> total_amount order = js_parseFloat (body_totalAmount b)"
    by (rule orders_POST_Success) auto
next
  show "orders_POST env (Some (b0\<lparr>body_status := s\<rparr>)) d = orders_POST env (Some b0) d"
    by (rule orders_POST_ignores_status)
next
  assume "order_insert env = Inl message"
  then show "snd (orders_POST env body d) = d"
    by (rule orders_POST_insert_fails)
next
  assume "order_insert env = Inl message"
  then show "\<exists>code msg. fst (orders_POST env body d) = Failure code msg"
    by (rule orders_POST_insert_fails)
qed

lemma sample_POST:
  "orders_POST sample_env (Some sample_body) empty_db =
     (Success sample_order, \<lparr>orders = [sample_order], order_items = [sample_order_item]\<rparr>)"
  by (simp add: orders_POST_def sample_env_def sample_body_def empty_db_def sample_order_def
      verificationNumber_of_def Let_def montana_order_item)

theorem orders_POST_accepted_witness:
  "orders_POST sample_env (Some sample_body) empty_db =
     (Success sample_order, \<lparr>orders = [sample_order], order_items = [sample_order_item]\<rparr>)
   \<and> status sample_order = jsstr ''pending''
   \<and> total_amount sample_order = js_parseFloat (body_totalAmount sample_body)
   \<and> snd (orders_POST failing_env (Some sample_body) empty_db) = empty_db
   \<and> (\<exists>code msg. fst (orders_POST failing_env (Some sample_body) empty_db) = Failure code msg)"
proof -
  note inst = orders_POST_accepted [of sample_env "Some sample_body" empty_db sample_order
      "\<lparr>orders = [sample_order], order_items = [sample_order_item]\<rparr>"]
  from inst sample_POST
  have "\<exists>b. Some sample_body = Some b
          \<and> orders \<lparr>orders = [sample_order], order_items = [sample_order_item]\<rparr>
              = orders empty_db @ [sample_order]
          \<and> status sample_order = jsstr ''pending''
          \<and> total_amount sample_order = js_parseFloat (body_totalAmount b)"
    by blast
  then have a: "status sample_order = jsstr ''pending''"
    and b: "total_amount sample_order = js_parseFloat (body_totalAmount sample_body)"
    by auto
  have f: "order_insert failing_env = Inl ''insert failed''"
    by (simp add: failing_env_def)
  note inst' = orders_POST_accepted [of failing_env "Some sample_body" empty_db _ _ _ _ "''insert failed''"]
  from inst' f have c: "snd (orders_POST failing_env (Some sample_body) empty_db) = empty_db"
    and d: "\<exists>code msg. fst (orders_POST failing_env (Some sample_body) empty_db) = Failure code msg"
    by blast+
  show ?thesis
    using sample_POST a b c d by (intro conjI)
qed

text \<open>
  Claim C4 does not hold of \<open>POST /api/orders\<close>: the handler never compares the total
  with the lines. The request for two hamburgers at 280 with the total 1 is accepted, and
  the stored order has the total 1 while its one line has the total 560;
  \<open>validateTotalAmount\<close>, which the other order-creation path calls, returns \<open>false\<close> for
  this request.
\<close>

theorem orders_POST_accepts_wrong_total:
  "orders_POST sample_env (Some wrong_total_body) empty_db =
     (Success (sample_order\<lparr>total_amount := Fin 1\<rparr>),
      \<lparr>orders = [sample_order\<lparr>total_amount := Fin 1\<rparr>], order_items = [sample_order_item]\<rparr>)
   \<and> oi_total_amount sample_order_item = Fin 560
   \<and> calculatedTotal [montana_item] = Fin 560
   \<and> \<not> validateTotalAmount [montana_item] (Fin 1)"
proof (intro conjI)
  show "orders_POST sample_env (Some wrong_total_body) empty_db =
     (Success (sample_order\<lparr>total_amount := Fin 1\<rparr>),
      \<lparr>orders = [sample_order\<lparr>total_amount := Fin 1\<rparr>], order_items = [sample_order_item]\<rparr>)"
    by (simp add: orders_POST_def sample_env_def sample_body_def wrong_total_body_def empty_db_def
        sample_order_def verificationNumber_of_def Let_def montana_order_item)
  show "oi_total_amount sample_order_item = Fin 560"
    by (simp add: sample_order_item_def)
  show total: "calculatedTotal [montana_item] = Fin 560"
    by (simp add: calculatedTotal_def montana_item_def)
  show "\<not> validateTotalAmount [montana_item] (Fin 1)"
    by (simp add: validateTotalAmount_def total num_sub_def)
qed

section \<open>Active orders\<close>

lemma set_active_orders:
  "set (active_orders d) = {r \<in> set (orders d). status r \<noteq> jsstr ''completed''}"
  by (auto simp: active_orders_def)

lemma loadOrders_shows_active:
  "dash_supabase env \<Longrightarrow> \<not> orders_query_fails env \<Longrightarrow>
   ui_orders (loadOrders env d ui) = active_orders d"
  by (simp add: loadOrders_def Let_def)

lemma dashboard_update_orders:
  "dash_supabase env \<Longrightarrow> \<not> dash_update_fails env \<Longrightarrow>
   orders (fst (dashboard_updateOrderStatus env n newStatus d ui)) =
     map (\<lambda>r. if order_number r = n
               then r\<lparr>status := (if newStatus = jsstr ''collected'' then jsstr ''completed''
                                  else newStatus),
                      updated_at := Some (dash_now env)\<rparr>
               else r) (orders d)"
  by (simp add: dashboard_updateOrderStatus_def Let_def)

lemma dashboard_update_unchanged:
  "\<not> dash_supabase env \<or> dash_update_fails env \<Longrightarrow>
   fst (dashboard_updateOrderStatus env n newStatus d ui) = d"
  by (auto simp: dashboard_updateOrderStatus_def Let_def)

lemma map_status_update_numbers:
  "map order_number (map (\<lambda>r. if order_number r = n then r\<lparr>status := s, updated_at := u\<rparr> else r) xs)
     = map order_number xs"
  by (induction xs) simp_all

lemma ball_set_map: "(\<And>x. x \<in> set xs \<Longrightarrow> P (f x)) \<Longrightarrow> \<forall>r \<in> set (map f xs). P r"
  by simp

lemma status_update_marks:
  "\<forall>r \<in> set (map (\<lambda>r. if order_number r = n then r\<lparr>status := s, updated_at := u\<rparr> else r) xs).
     order_number r = n \<longrightarrow> status r = s"
proof (rule ball_set_map)
  fix x
  show "order_number (if order_number x = n then x\<lparr>status := s, updated_at := u\<rparr> else x) = n \<longrightarrow>
        status (if order_number x = n then x\<lparr>status := s, updated_at := u\<rparr> else x) = s"
    by (cases "order_number x = n") simp_all
qed

text \<open>
  Claim C8. The query of \<open>loadOrders\<close> returns exactly the rows of \<open>orders\<close> whose status is
  not \<open>completed\<close>, so no order it returns is completed, and these are the orders the
  dashboard shows after a read that succeeds. The rows are filtered when read, not
  deleted: when the dashboard marks order \<open>n\<close> as collected, the store keeps as many rows
  as before, with the same order numbers; every row numbered \<open>n\<close> is then completed, and no
  active-orders read of that store returns it.
\<close>

theorem active_orders_exclude_completed:
  "(\<forall>r \<in> set (active_orders d). status r \<noteq> jsstr ''completed'')
   \<and> set (active_orders d) = {r \<in> set (orders d). status r \<noteq> jsstr ''completed''}
   \<and> (dash_supabase env \<and> \<not> orders_query_fails env \<longrightarrow>
        ui_orders (loadOrders env d ui) = active_orders d)
   \<and> (dash_supabase env \<and> \<not> dash_update_fails env \<longrightarrow>
        map order_number (orders (fst (dashboard_updateOrderStatus env n (jsstr ''collected'') d ui)))
          = map order_number (orders d)
        \<and> (\<forall>r \<in> set (orders (fst (dashboard_updateOrderStatus env n (jsstr ''collected'') d ui))).
              order_number r = n \<longrightarrow> status r = jsstr ''completed'')
        \<and> (\<forall>r \<in> set (active_orders (fst (dashboard_updateOrderStatus env n (jsstr ''collected'') d ui))).
              order_number r \<noteq> n))"
proof (intro conjI impI)
  show "\<forall>r \<in> set (active_orders d). status r \<noteq> jsstr ''completed''"
    by (simp add: set_active_orders)
  show "set (active_orders d) = {r \<in> set (orders d). status r \<noteq> jsstr ''completed''}"
    by (rule set_active_orders)
next
  assume "dash_supabase env \<and> \<not> orders_query_fails env"
  then show "ui_orders (loadOrders env d ui) = active_orders d"
    by (simp add: loadOrders_shows_active)
next
  assume a: "dash_supabase env \<and> \<not> dash_update_fails env"
  let ?d' = "fst (dashboard_updateOrderStatus env n (jsstr ''collected'') d ui)"
  have upd: "orders ?d' =
     map (\<lambda>r. if order_number r = n
               then r\<lparr>status := jsstr ''completed'', updated_at := Some (dash_now env)\<rparr>
               else r) (orders d)"
    using a dashboard_update_orders [of env n "jsstr ''collected''" d ui] by simp
  show "map order_number (orders ?d') = map order_number (orders d)"
    unfolding upd by (rule map_status_update_numbers)
  show marked: "\<forall>r \<in> set (orders ?d'). order_number r = n \<longrightarrow> status r = jsstr ''completed''"
    unfolding upd by (rule status_update_marks)
  show "\<forall>r \<in> set (active_orders ?d'). order_number r \<noteq> n"
  proof
    fix r assume "r \<in> set (active_orders ?d')"
    then have "r \<in> set (orders ?d')" and "status r \<noteq> jsstr ''completed''"
      by (simp_all add: set_active_orders)
    with marked show "order_number r \<noteq> n" by blast
  qed
qed

lemma three_orders_active: "active_orders three_orders = [order9, order7]"
  by (simp add: active_orders_def three_orders_def order7_def order8_def order9_def jsstr_def)

lemma three_orders_collect9:
  "orders (fst (dashboard_updateOrderStatus working_dash 9 (jsstr ''collected'') three_orders
     blank_dashboard))
   = [order7, order8, order9\<lparr>status := jsstr ''completed'', updated_at := Some 4000\<rparr>]"
  by (simp add: dashboard_updateOrderStatus_def working_dash_def three_orders_def Let_def
      order7_def order8_def order9_def)

theorem active_orders_exclude_completed_witness:
  "active_orders three_orders = [order9, order7]
   \<and> order8 \<in> set (orders three_orders)
   \<and> status order9 \<noteq> jsstr ''completed''
   \<and> ui_orders (loadOrders working_dash three_orders blank_dashboard) = [order9, order7]
   \<and> orders (fst (dashboard_updateOrderStatus working_dash 9 (jsstr ''collected'') three_orders
        blank_dashboard))
      = [order7, order8, order9\<lparr>status := jsstr ''completed'', updated_at := Some 4000\<rparr>]
   \<and> map order_number (orders (fst (dashboard_updateOrderStatus working_dash 9 (jsstr ''collected'')
        three_orders blank_dashboard))) = map order_number (orders three_orders)"
proof -
  note inst = active_orders_exclude_completed [of three_orders working_dash blank_dashboard 9]
  have env: "dash_supabase working_dash \<and> \<not> orders_query_fails working_dash"
    "dash_supabase working_dash \<and> \<not> dash_update_fails working_dash"
    by (simp_all add: working_dash_def)
  have "order9 \<in> set (active_orders three_orders)"
    by (simp add: three_orders_active)
  with inst have a: "status order9 \<noteq> jsstr ''completed''"
    by blast
  from inst env(1) have "ui_orders (loadOrders working_dash three_orders blank_dashboard)
      = active_orders three_orders"
    by blast
  then have b: "ui_orders (loadOrders working_dash three_orders blank_dashboard) = [order9, order7]"
    by (simp only: three_orders_active)
  from inst env(2)
  have c: "map order_number (orders (fst (dashboard_updateOrderStatus working_dash 9
        (jsstr ''collected'') three_orders blank_dashboard))) = map order_number (orders three_orders)"
    by blast
  have d: "order8 \<in> set (orders three_orders)"
    by (simp add: three_orders_def)
  show ?thesis
    using three_orders_active d a b three_orders_collect9 c by (intro conjI)
qed

section \<open>Status transitions\<close>

lemma collected_not_valid: "jsstr ''collected'' \<notin> set validStatuses"
  by (simp add: validStatuses_def jsstr_def)

lemma order_tracking_PUT_Failure:
  "order_tracking_PUT env authHeader body d = (Failure code msg, d') \<Longrightarrow> d' = d"
  by (auto simp: order_tracking_PUT_def Let_def
      split: if_splits option.splits jsval.splits)

lemma order_tracking_PUT_Success:
  assumes "order_tracking_PUT env authHeader body d = (Success row, d')"
  obtains b s where "body = Some b" and "put_status b = JStr s" and "s \<in> set validStatuses"
    and "status row = s"
    and "orders d' = map (\<lambda>r. if eq_id_column (row_id r) (order_id b)
                               then (if s = jsstr ''completed''
                                     then r\<lparr>status := s, completed_at := Some (put_now env)\<rparr>
                                     else r\<lparr>status := s\<rparr>)
                               else r) (orders d)"
proof -
  from assms obtain b where b: "body = Some b"
    by (cases body) (auto simp: order_tracking_PUT_def split: if_splits)
  from assms b obtain s where s: "put_status b = JStr s"
    by (cases "put_status b") (auto simp: order_tracking_PUT_def split: if_splits)
  from assms b s have valid: "s \<in> set validStatuses"
    by (auto simp: order_tracking_PUT_def split: if_splits)
  from assms b s valid obtain r0
    where r0: "single (filter (\<lambda>r. eq_id_column (row_id r) (order_id b)) (orders d)) = Some r0"
    by (cases "single (filter (\<lambda>r. eq_id_column (row_id r) (order_id b)) (orders d))")
       (auto simp: order_tracking_PUT_def Let_def split: if_splits option.splits)
  from assms b s valid r0
  have row: "row = (if s = jsstr ''completed''
                    then r0\<lparr>status := s, completed_at := Some (put_now env)\<rparr>
                    else r0\<lparr>status := s\<rparr>)"
    and d': "d' = d\<lparr>orders := map (\<lambda>r. if eq_id_column (row_id r) (order_id b)
                               then (if s = jsstr ''completed''
                                     then r\<lparr>status := s, completed_at := Some (put_now env)\<rparr>
                                     else r\<lparr>status := s\<rparr>)
                               else r) (orders d)\<rparr>"
    by (simp_all add: order_tracking_PUT_def Let_def split: if_splits option.splits)
  from row have "status row = s" by (cases "s = jsstr ''completed''") simp_all
  moreover from d' have "orders d' = map (\<lambda>r. if eq_id_column (row_id r) (order_id b)
                               then (if s = jsstr ''completed''
                                     then r\<lparr>status := s, completed_at := Some (put_now env)\<rparr>
                                     else r\<lparr>status := s\<rparr>)
                               else r) (orders d)"
    by simp
  ultimately show ?thesis using that b s valid by blast
qed

lemma order_tracking_PUT_rejects:
  assumes "authorized authHeader" and "put_supabase env" and "put_status b \<notin> JStr ` set validStatuses"
  shows "order_tracking_PUT env authHeader (Some b) d = (Failure 400 invalid_status_message, d)"
proof (cases "put_status b")
  case (JStr s)
  with assms(3) have "s \<notin> set validStatuses" by auto
  with assms(1,2) JStr show ?thesis
    by (simp add: order_tracking_PUT_def invalid_status_message_def)
qed (use assms(1,2) in \<open>simp_all add: order_tracking_PUT_def invalid_status_message_def\<close>)

lemma PUT_rows:
  assumes "r' \<in> set (orders (snd (order_tracking_PUT env authHeader body d)))"
  shows "r' \<in> set (orders d) \<or> status r' \<in> set validStatuses"
proof (cases "order_tracking_PUT env authHeader body d")
  case (Pair resp d')
  show ?thesis
  proof (cases resp)
    case (Failure code msg)
    with Pair have "d' = d" using order_tracking_PUT_Failure by blast
    with assms Pair show ?thesis by simp
  next
    case (Success row)
    with Pair have "order_tracking_PUT env authHeader body d = (Success row, d')" by simp
    then obtain b s where "body = Some b" and "put_status b = JStr s"
      and valid: "s \<in> set validStatuses" and "status row = s"
      and d': "orders d' = map (\<lambda>r. if eq_id_column (row_id r) (order_id b)
                               then (if s = jsstr ''completed''
                                     then r\<lparr>status := s, completed_at := Some (put_now env)\<rparr>
                                     else r\<lparr>status := s\<rparr>)
                               else r) (orders d)"
      by (rule order_tracking_PUT_Success)
    from assms Pair have "r' \<in> set (orders d')" by simp
    then obtain r where r: "r \<in> set (orders d)"
      and r': "r' = (if eq_id_column (row_id r) (order_id b)
                     then (if s = jsstr ''completed''
                           then r\<lparr>status := s, completed_at := Some (put_now env)\<rparr>
                           else r\<lparr>status := s\<rparr>)
                     else r)"
      unfolding d' set_map by (rule imageE)
    show ?thesis
    proof (cases "eq_id_column (row_id r) (order_id b)")
      case True
      with r' have "status r' = s" by (cases "s = jsstr ''completed''") simp_all
      with valid show ?thesis by simp
    next
      case False
      with r r' show ?thesis by simp
    qed
  qed
qed

lemma dashboard_rows:
  assumes "r' \<in> set (orders (fst (dashboard_updateOrderStatus env n newStatus d ui)))"
  shows "r' \<in> set (orders d) \<or> status r' = finalStatus_of newStatus"
proof (cases "dash_supabase env \<and> \<not> dash_update_fails env")
  case False
  then have "fst (dashboard_updateOrderStatus env n newStatus d ui) = d"
    using dashboard_update_unchanged by blast
  with assms show ?thesis by simp
next
  case True
  let ?f = "\<lambda>r. if order_number r = n
               then r\<lparr>status := finalStatus_of newStatus, updated_at := Some (dash_now env)\<rparr>
               else r"
  have "orders (fst (dashboard_updateOrderStatus env n newStatus d ui)) = map ?f (orders d)"
    using True dashboard_update_orders [of env n newStatus d ui] by (simp add: finalStatus_of_def)
  with assms have "r' \<in> ?f ` set (orders d)" by simp
  then obtain r where r: "r \<in> set (orders d)" and r': "r' = ?f r"
    by (rule imageE)
  show ?thesis
  proof (cases "order_number r = n")
    case True
    with r' show ?thesis by simp
  next
    case False
    with r r' show ?thesis by simp
  qed
qed

lemma finalStatus_not_collected: "finalStatus_of newStatus \<noteq> jsstr ''collected''"
  by (simp add: finalStatus_of_def jsstr_def)

lemma PUT_success_rows:
  assumes "order_tracking_PUT env authHeader body d = (Success row, d')"
  shows "\<exists>b s. body = Some b \<and> put_status b = JStr s \<and> s \<in> set validStatuses \<and> status row = s
           \<and> (\<forall>r' \<in> set (orders d'). r' \<in> set (orders d) \<or> status r' = s)"
proof -
  from assms obtain b s where b: "body = Some b" and s: "put_status b = JStr s"
    and valid: "s \<in> set validStatuses" and row: "status row = s"
    and d': "orders d' = map (\<lambda>r. if eq_id_column (row_id r) (order_id b)
                               then (if s = jsstr ''completed''
                                     then r\<lparr>status := s, completed_at := Some (put_now env)\<rparr>
                                     else r\<lparr>status := s\<rparr>)
                               else r) (orders d)"
    by (rule order_tracking_PUT_Success)
  have "\<forall>r' \<in> set (orders d'). r' \<in> set (orders d) \<or> status r' = s"
    unfolding d'
  proof (rule ball_set_map)
    fix r assume r: "r \<in> set (orders d)"
    show "(if eq_id_column (row_id r) (order_id b)
           then (if s = jsstr ''completed''
                 then r\<lparr>status := s, completed_at := Some (put_now env)\<rparr>
                 else r\<lparr>status := s\<rparr>)
           else r) \<in> set (orders d)
          \<or> status (if eq_id_column (row_id r) (order_id b)
           then (if s = jsstr ''completed''
                 then r\<lparr>status := s, completed_at := Some (put_now env)\<rparr>
                 else r\<lparr>status := s\<rparr>)
           else r) = s"
      using r by (cases "eq_id_column (row_id r) (order_id b)"; cases "s = jsstr ''completed''") simp_all
  qed
  with b s valid row show ?thesis by blast
qed

text \<open>
  Claim C1, as the code has it. The dashboard's \<open>updateOrderStatus\<close> writes \<open>completed\<close>
  for a requested \<open>collected\<close> and the requested status otherwise, to every row with the
  order number. The \<open>PUT\<close> endpoint rewrites nothing: it writes the requested status when
  that is one of \<open>preparing\<close>, \<open>ready\<close>, \<open>completed\<close>, \<open>cancelled\<close>, and it rejects every
  other request of an authorised caller, \<open>collected\<close> among them, with status 400, leaving
  the store as it was. On both paths a row of the store afterwards is a row of the store
  before or has a status other than \<open>collected\<close>.
\<close>

theorem status_transitions_persist:
  "(dash_supabase denv \<and> \<not> dash_update_fails denv \<longrightarrow>
      orders (fst (dashboard_updateOrderStatus denv n newStatus d ui)) =
        map (\<lambda>r. if order_number r = n
                  then r\<lparr>status := finalStatus_of newStatus, updated_at := Some (dash_now denv)\<rparr>
                  else r) (orders d))
   \<and> finalStatus_of (jsstr ''collected'') = jsstr ''completed''
   \<and> (newStatus \<noteq> jsstr ''collected'' \<longrightarrow> finalStatus_of newStatus = newStatus)
   \<and> (\<forall>r' \<in> set (orders (fst (dashboard_updateOrderStatus denv n newStatus d ui))).
          r' \<in> set (orders d) \<or> status r' \<noteq> jsstr ''collected'')
   \<and> (order_tracking_PUT penv authHeader body d = (Success row, d') \<longrightarrow>
        (\<exists>b s. body = Some b \<and> put_status b = JStr s \<and> s \<in> set validStatuses \<and> status row = s
           \<and> (\<forall>r' \<in> set (orders d'). r' \<in> set (orders d) \<or> status r' = s)))
   \<and> (authorized authHeader \<and> put_supabase penv \<and> put_status b0 \<notin> JStr ` set validStatuses \<longrightarrow>
        order_tracking_PUT penv authHeader (Some b0) d = (Failure 400 invalid_status_message, d))
   \<and> JStr (jsstr ''collected'') \<notin> JStr ` set validStatuses
   \<and> (\<forall>r' \<in> set (orders (snd (order_tracking_PUT penv authHeader body d))).
          r' \<in> set (orders d) \<or> status r' \<noteq> jsstr ''collected'')"
proof (intro conjI impI ballI)
  assume "dash_supabase denv \<and> \<not> dash_update_fails denv"
  then show "orders (fst (dashboard_updateOrderStatus denv n newStatus d ui)) =
        map (\<lambda>r. if order_number r = n
                  then r\<lparr>status := finalStatus_of newStatus, updated_at := Some (dash_now denv)\<rparr>
                  else r) (orders d)"
    using dashboard_update_orders [of denv n newStatus d ui] by (simp add: finalStatus_of_def)
next
  show "finalStatus_of (jsstr ''collected'') = jsstr ''completed''"
    by (simp add: finalStatus_of_def)
next
  assume "newStatus \<noteq> jsstr ''collected''"
  then show "finalStatus_of newStatus = newStatus"
    by (simp add: finalStatus_of_def)
next
  fix r' assume "r' \<in> set (orders (fst (dashboard_updateOrderStatus denv n newStatus d ui)))"
  then have "r' \<in> set (orders d) \<or> status r' = finalStatus_of newStatus"
    by (rule dashboard_rows)
  then show "r' \<in> set (orders d) \<or> status r' \<noteq> jsstr ''collected''"
  proof
    assume "r' \<in> set (orders d)"
    then show ?thesis ..
  next
    assume "status r' = finalStatus_of newStatus"
    then have "status r' \<noteq> jsstr ''collected''"
      by (simp only: finalStatus_not_collected not_False_eq_True)
    then show ?thesis ..
  qed
next
  assume "order_tracking_PUT penv authHeader body d = (Success row, d')"
  then show "\<exists>b s. body = Some b \<and> put_status b = JStr s \<and> s \<in> set validStatuses \<and> status row = s
           \<and> (\<forall>r' \<in> set (orders d'). r' \<in> set (orders d) \<or> status r' = s)"
    by (rule PUT_success_rows)
next
  assume "authorized authHeader \<and> put_supabase penv \<and> put_status b0 \<notin> JStr ` set validStatuses"
  then show "order_tracking_PUT penv authHeader (Some b0) d = (Failure 400 invalid_status_message, d)"
    using order_tracking_PUT_rejects by blast
next
  show "JStr (jsstr ''collected'') \<notin> JStr ` set validStatuses"
    using collected_not_valid by (simp add: image_iff)
next
  fix r' assume "r' \<in> set (orders (snd (order_tracking_PUT penv authHeader body d)))"
  then have "r' \<in> set (orders d) \<or> status r' \<in> set validStatuses"
    by (rule PUT_rows)
  then show "r' \<in> set (orders d) \<or> status r' \<noteq> jsstr ''collected''"
  proof
    assume "r' \<in> set (orders d)"
    then show ?thesis ..
  next
    assume v: "status r' \<in> set validStatuses"
    have "status r' \<noteq> jsstr ''collected''"
    proof
      assume "status r' = jsstr ''collected''"
      with v have "jsstr ''collected'' \<in> set validStatuses" by (simp only:)
      with collected_not_valid show False by contradiction
    qed
    then show ?thesis ..
  qed
qed

lemma PUT_collected_three_orders:
  "order_tracking_PUT working_put bearer (Some collected_body) three_orders
     = (Failure 400 invalid_status_message, three_orders)"
  by (simp add: order_tracking_PUT_def working_put_def bearer_def collected_body_def
      authorized_def validStatuses_def invalid_status_message_def jsstr_def)

lemma PUT_completed_three_orders:
  "order_tracking_PUT working_put bearer (Some completed_body) three_orders
     = (Success (order9\<lparr>status := jsstr ''completed'', completed_at := Some 4000\<rparr>),
        \<lparr>orders = [order7, order8, order9\<lparr>status := jsstr ''completed'', completed_at := Some 4000\<rparr>],
         order_items = []\<rparr>)"
  by (simp add: order_tracking_PUT_def working_put_def bearer_def completed_body_def
      authorized_def validStatuses_def three_orders_def order7_def order8_def order9_def
      eq_id_column_def Let_def jsstr_def)

theorem status_transitions_persist_witness:
  "orders (fst (dashboard_updateOrderStatus working_dash 9 (jsstr ''collected'') three_orders
        blank_dashboard))
      = [order7, order8, order9\<lparr>status := jsstr ''completed'', updated_at := Some 4000\<rparr>]
   \<and> order_tracking_PUT working_put bearer (Some collected_body) three_orders
      = (Failure 400 invalid_status_message, three_orders)
   \<and> order_tracking_PUT working_put bearer (Some completed_body) three_orders
      = (Success (order9\<lparr>status := jsstr ''completed'', completed_at := Some 4000\<rparr>),
         \<lparr>orders = [order7, order8, order9\<lparr>status := jsstr ''completed'', completed_at := Some 4000\<rparr>],
          order_items = []\<rparr>)
   \<and> status (order9\<lparr>status := jsstr ''completed'', completed_at := Some 4000\<rparr>) \<in> set validStatuses"
proof -
  note inst = status_transitions_persist [of working_dash 9 "jsstr ''collected''" three_orders
      blank_dashboard working_put bearer "Some completed_body"
      "order9\<lparr>status := jsstr ''completed'', completed_at := Some 4000\<rparr>"
      "\<lparr>orders = [order7, order8, order9\<lparr>status := jsstr ''completed'', completed_at := Some 4000\<rparr>],
         order_items = []\<rparr>" collected_body]
  have auth: "authorized bearer \<and> put_supabase working_put
      \<and> put_status collected_body \<notin> JStr ` set validStatuses"
    using collected_not_valid
    by (simp add: bearer_def authorized_def working_put_def collected_body_def image_iff jsstr_def)
  from inst have "authorized bearer \<and> put_supabase working_put
      \<and> put_status collected_body \<notin> JStr ` set validStatuses \<longrightarrow>
      order_tracking_PUT working_put bearer (Some collected_body) three_orders
        = (Failure 400 invalid_status_message, three_orders)"
    by (elim conjE)
  from this auth
  have a: "order_tracking_PUT working_put bearer (Some collected_body) three_orders
      = (Failure 400 invalid_status_message, three_orders)"
    by (rule mp)
  from inst have "order_tracking_PUT working_put bearer (Some completed_body) three_orders
      = (Success (order9\<lparr>status := jsstr ''completed'', completed_at := Some 4000\<rparr>),
         \<lparr>orders = [order7, order8, order9\<lparr>status := jsstr ''completed'', completed_at := Some 4000\<rparr>],
          order_items = []\<rparr>) \<longrightarrow>
      (\<exists>b s. Some completed_body = Some b \<and> put_status b = JStr s \<and> s \<in> set validStatuses
      \<and> status (order9\<lparr>status := jsstr ''completed'', completed_at := Some 4000\<rparr>) = s
      \<and> (\<forall>r' \<in> set (orders \<lparr>orders = [order7, order8,
              order9\<lparr>status := jsstr ''completed'', completed_at := Some 4000\<rparr>], order_items = []\<rparr>).
            r' \<in> set (orders three_orders) \<or> status r' = s))"
    by (elim conjE)
  from this PUT_completed_three_orders
  have "\<exists>b s. Some completed_body = Some b \<and> put_status b = JStr s \<and> s \<in> set validStatuses
      \<and> status (order9\<lparr>status := jsstr ''completed'', completed_at := Some 4000\<rparr>) = s
      \<and> (\<forall>r' \<in> set (orders \<lparr>orders = [order7, order8,
              order9\<lparr>status := jsstr ''completed'', completed_at := Some 4000\<rparr>], order_items = []\<rparr>).
            r' \<in> set (orders three_orders) \<or> status r' = s)"
    by (rule mp)
  then have b: "status (order9\<lparr>status := jsstr ''completed'', completed_at := Some 4000\<rparr>)
      \<in> set validStatuses"
    by (elim exE conjE) (simp only:)
  show ?thesis
    using three_orders_collect9 a PUT_completed_three_orders b by (intro conjI)
qed

text \<open>
  The claim as it was stated fails on the \<open>PUT\<close> endpoint: an authorised request for
  \<open>collected\<close> is not rewritten to \<open>completed\<close>. It is answered with status 400 and the
  store is unchanged, so order 9 is still \<open>ready\<close>; the same request for \<open>completed\<close> is
  carried out.
\<close>

theorem put_collected_counterexample:
  "order_tracking_PUT working_put bearer (Some collected_body) three_orders
      = (Failure 400 invalid_status_message, three_orders)
   \<and> map status (orders three_orders) = [jsstr ''pending'', jsstr ''completed'', jsstr ''ready'']
   \<and> put_status collected_body = JStr (jsstr ''collected'')
   \<and> authorized bearer"
proof (intro conjI)
  show "order_tracking_PUT working_put bearer (Some collected_body) three_orders
      = (Failure 400 invalid_status_message, three_orders)"
    by (rule PUT_collected_three_orders)
  show "map status (orders three_orders) = [jsstr ''pending'', jsstr ''completed'', jsstr ''ready'']"
    by (simp add: three_orders_def order7_def order8_def order9_def)
  show "put_status collected_body = JStr (jsstr ''collected'')"
    by (simp add: collected_body_def)
  show "authorized bearer"
    by (simp add: bearer_def authorized_def jsstr_def)
qed

section \<open>Tracking a created order\<close>


















end
